theory Spec2Isabelle
  imports Complex_Main
begin

section \<open>Values, exceptions and the directed graph\<close>

text \<open>
  The notebook \<^verbatim>\<open>packing.ipynb\<close> holds two functions: the score function \<^verbatim>\<open>F\<close>, whose
  body is \<^verbatim>\<open>pass\<close>, and \<^verbatim>\<open>generate_hierarchy_tree\<close>, which builds the hierarchy tree
  in a \<^verbatim>\<open>networkx.DiGraph\<close>.

  A score is what a call of \<^verbatim>\<open>F\<close> returns: Python's \<^verbatim>\<open>None\<close> or a number.
\<close>

datatype pyval = PyNone | PyNum real

datatype error = TypeError | ValueError

text \<open>
  A \<^verbatim>\<open>DiGraph\<close> keeps one attribute dictionary for each node and one for each edge, both
  in insertion order. Node identifiers are Python integers.
\<close>

type_synonym attrs = "(string \<times> pyval) list"

record digraph =
  node_attr :: "(int \<times> attrs) list"
  edge_attr :: "((int \<times> int) \<times> attrs) list"

definition nodes :: "digraph \<Rightarrow> int list" where
  "nodes G = map fst (node_attr G)"

definition edges :: "digraph \<Rightarrow> (int \<times> int) list" where
  "edges G = map fst (edge_attr G)"

definition DiGraph :: digraph where
  "DiGraph = \<lparr>node_attr = [], edge_attr = []\<rparr>"

text \<open>\<^verbatim>\<open>G.add_node(n)\<close> without keyword arguments: a new node gets an empty attribute
  dictionary, a node that is already present is left as it is.\<close>

definition add_node :: "int \<Rightarrow> digraph \<Rightarrow> digraph" where
  "add_node n G =
     (if n \<in> set (nodes G) then G else G\<lparr>node_attr := node_attr G @ [(n, [])]\<rparr>)"

text \<open>\<^verbatim>\<open>G.add_edge(u, v)\<close> without keyword arguments: both end points are added as nodes
  when they are missing (\<open>u\<close> first), then the edge, with an empty attribute dictionary.\<close>

definition add_edge :: "int \<Rightarrow> int \<Rightarrow> digraph \<Rightarrow> digraph" where
  "add_edge u v G =
     (let G1 = add_node u G;
          G2 = add_node v G1
      in if (u, v) \<in> set (edges G2) then G2
         else G2\<lparr>edge_attr := edge_attr G2 @ [((u, v), [])]\<rparr>)"

text \<open>The nodes without a parent, and the children of a node.\<close>

definition roots :: "digraph \<Rightarrow> int list" where
  "roots G = filter (\<lambda>n. n \<notin> snd ` set (edges G)) (nodes G)"

definition children :: "digraph \<Rightarrow> int \<Rightarrow> int list" where
  "children G p = map snd (filter (\<lambda>e. fst e = p) (edges G))"

definition leaves :: "digraph \<Rightarrow> int list" where
  "leaves G = filter (\<lambda>n. children G n = []) (nodes G)"

definition internal_nodes :: "digraph \<Rightarrow> int list" where
  "internal_nodes G = filter (\<lambda>n. children G n \<noteq> []) (nodes G)"

section \<open>The score function\<close>

text \<open>
  A score function receives two node identifiers and the coupling graph. Python passes
  the coupling graph by reference, so a score function may change it: the model returns
  the coupling graph after the call next to the score.
\<close>

type_synonym 'g score_fn = "int \<Rightarrow> int \<Rightarrow> 'g \<Rightarrow> pyval \<times> 'g"

text \<open>The notebook's \<^verbatim>\<open>F\<close>: its body is \<^verbatim>\<open>pass\<close>, so every call returns \<^verbatim>\<open>None\<close>.\<close>

definition F :: "'g score_fn" where
  "F A B coupling_graph = (PyNone, coupling_graph)"

text \<open>A score function that reads the coupling graph only and returns a real number.\<close>

definition real_score :: "(int \<Rightarrow> int \<Rightarrow> 'g \<Rightarrow> real) \<Rightarrow> 'g score_fn" where
  "real_score f A B coupling_graph = (PyNum (f A B coupling_graph), coupling_graph)"

text \<open>A score function that returns the same number \<open>m\<close> for every pair.\<close>

definition const_score :: "real \<Rightarrow> 'g score_fn" where
  "const_score m = real_score (\<lambda>A B coupling_graph. m)"

section \<open>The tree builder\<close>

text \<open>The pairs \<^verbatim>\<open>(unmerged_items[i], unmerged_items[j])\<close> in the order of the two nested
  \<^verbatim>\<open>for\<close> loops: \<open>i\<close> over \<^verbatim>\<open>range(len(unmerged_items))\<close>, \<open>j\<close> over
  \<^verbatim>\<open>range(i + 1, len(unmerged_items))\<close>.\<close>

definition index_pairs :: "'a list \<Rightarrow> ('a \<times> 'a) list" where
  "index_pairs xs =
     concat (map (\<lambda>i. map (\<lambda>j. (xs ! i, xs ! j)) [i + 1 ..< length xs]) [0 ..< length xs])"

text \<open>
  The body of the inner loop, run over the pairs in order. \<^verbatim>\<open>f > f_max\<close> raises
  \<^verbatim>\<open>TypeError\<close> when \<open>f\<close> is \<^verbatim>\<open>None\<close>; otherwise a strictly larger score replaces the
  running maximum and the remembered pair.
\<close>

fun scan_pairs ::
  "'g score_fn \<Rightarrow> (int \<times> int) list \<Rightarrow> real \<Rightarrow> (int \<times> int) option \<Rightarrow> 'g
     \<Rightarrow> (error + real \<times> (int \<times> int) option) \<times> 'g" where
  "scan_pairs sc [] f_max pair_to_merge g = (Inr (f_max, pair_to_merge), g)"
| "scan_pairs sc ((A, B) # ps) f_max pair_to_merge g =
     (case sc A B g of
        (PyNone, g') \<Rightarrow> (Inl TypeError, g')
      | (PyNum f, g') \<Rightarrow>
          if f > f_max then scan_pairs sc ps f (Some (A, B)) g'
          else scan_pairs sc ps f_max pair_to_merge g')"

text \<open>Step 4: \<^verbatim>\<open>f_max = -1\<close>, \<^verbatim>\<open>pair_to_merge = None\<close>, then the two loops.\<close>

definition find_pair ::
  "'g score_fn \<Rightarrow> int list \<Rightarrow> 'g \<Rightarrow> (error + real \<times> (int \<times> int) option) \<times> 'g" where
  "find_pair sc unmerged_items g = scan_pairs sc (index_pairs unmerged_items) (- 1) None g"

text \<open>\<^verbatim>\<open>list.remove(x)\<close> deletes the first occurrence and raises \<^verbatim>\<open>ValueError\<close> when
  there is none.\<close>

definition list_remove :: "int \<Rightarrow> int list \<Rightarrow> error + int list" where
  "list_remove x xs = (if x \<in> set xs then Inr (remove1 x xs) else Inl ValueError)"

text \<open>Steps 5 and 6 and the update of \<^verbatim>\<open>unmerged_items\<close>.\<close>

definition merge_items ::
  "int \<times> int \<Rightarrow> digraph \<Rightarrow> int list \<Rightarrow> error + digraph \<times> int list" where
  "merge_items pair_to_merge HT unmerged_items =
     (case pair_to_merge of (A, B) \<Rightarrow>
        let new_node = int (length (nodes HT));
            HT1 = add_edge new_node A HT;
            HT2 = add_edge new_node B HT1;
            HT3 = add_node new_node HT2
        in case list_remove A unmerged_items of
             Inl e \<Rightarrow> Inl e
           | Inr u1 \<Rightarrow>
               (case list_remove B u1 of
                  Inl e \<Rightarrow> Inl e
                | Inr u2 \<Rightarrow> Inr (HT3, u2 @ [new_node])))"

text \<open>One run of the body of the \<^verbatim>\<open>while\<close> loop: it raises, it leaves the loop through
  \<^verbatim>\<open>break\<close>, or it goes on with a new tree and a new list of unmerged items.\<close>

datatype iteration = Raised error | Broke | Next digraph "int list"

definition loop_body :: "'g score_fn \<Rightarrow> digraph \<Rightarrow> int list \<Rightarrow> 'g \<Rightarrow> iteration \<times> 'g" where
  "loop_body sc HT unmerged_items g =
     (case find_pair sc unmerged_items g of
        (Inl e, g') \<Rightarrow> (Raised e, g')
      | (Inr (f_max, None), g') \<Rightarrow> (Broke, g')
      | (Inr (f_max, Some pair_to_merge), g') \<Rightarrow>
          (case merge_items pair_to_merge HT unmerged_items of
             Inl e \<Rightarrow> (Raised e, g')
           | Inr (HT', unmerged_items') \<Rightarrow> (Next HT' unmerged_items', g')))"

text \<open>Step 3: the \<^verbatim>\<open>while\<close> loop. Each further iteration has one unmerged item less.\<close>

function merge_loop ::
  "'g score_fn \<Rightarrow> digraph \<Rightarrow> int list \<Rightarrow> 'g \<Rightarrow> (error + digraph) \<times> 'g" where
  "merge_loop sc HT unmerged_items g =
     (if length unmerged_items > 1 then
        (case loop_body sc HT unmerged_items g of
           (Raised e, g') \<Rightarrow> (Inl e, g')
         | (Broke, g') \<Rightarrow> (Inr HT, g')
         | (Next HT' unmerged_items', g') \<Rightarrow> merge_loop sc HT' unmerged_items' g')
      else (Inr HT, g))"
  by pat_completeness auto
termination
  apply (relation "measure (\<lambda>(sc, HT, um, g). length um)")
   apply simp
  apply (simp add: loop_body_def merge_items_def list_remove_def Let_def
      split: prod.splits sum.splits option.splits if_splits)
  apply (auto simp: length_remove1 split: if_splits)
  done

text \<open>Steps 1 and 2: the empty graph, then one leaf for each of \<^verbatim>\<open>range(qubits)\<close>, which
  is empty when \<open>qubits\<close> is zero or negative.\<close>

definition range_py :: "int \<Rightarrow> int list" where
  "range_py n = map int [0 ..< nat n]"

definition initial_tree :: "int \<Rightarrow> digraph" where
  "initial_tree qubits = fold add_node (range_py qubits) DiGraph"

text \<open>
  The whole function. The notebook's \<^verbatim>\<open>generate_hierarchy_tree\<close> calls the global name
  \<^verbatim>\<open>F\<close>; here the score function is the first argument, and the notebook as it stands
  is \<open>generate_hierarchy_tree F\<close>. The result is the raised exception or the returned
  tree, together with the coupling graph after the call.
\<close>

definition generate_hierarchy_tree ::
  "'g score_fn \<Rightarrow> int \<Rightarrow> 'g \<Rightarrow> (error + digraph) \<times> 'g" where
  "generate_hierarchy_tree sc qubits coupling_graph =
     (let HT = initial_tree qubits;
          unmerged_items = nodes HT
      in merge_loop sc HT unmerged_items coupling_graph)"

text \<open>The states at the head of the \<^verbatim>\<open>while\<close> loop that a run passes through.\<close>

inductive loop_reaches ::
  "'g score_fn \<Rightarrow> digraph \<times> int list \<times> 'g \<Rightarrow> digraph \<times> int list \<times> 'g \<Rightarrow> bool"
  for sc :: "'g score_fn" and s0 :: "digraph \<times> int list \<times> 'g" where
  start: "loop_reaches sc s0 s0"
| iterate: "loop_reaches sc s0 (HT, um, g) \<Longrightarrow> 1 < length um \<Longrightarrow>
            loop_body sc HT um g = (Next HT' um', g') \<Longrightarrow>
            loop_reaches sc s0 (HT', um', g')"

definition loop_start :: "int \<Rightarrow> 'g \<Rightarrow> digraph \<times> int list \<times> 'g" where
  "loop_start qubits g = (initial_tree qubits, nodes (initial_tree qubits), g)"

text \<open>
  What holds of the tree and of the unmerged items at the head of the loop, for a build
  over \<open>N\<close> qubits: the node identifiers are \<open>0, 1, \<dots>\<close> in order, no node and no edge
  carries an attribute, the unmerged items are in increasing order and are the nodes
  without a parent, every edge leads from a later node to an earlier one, no node has two
  parents, the first \<open>N\<close> nodes have no child and the others have two, and every node is
  below an unmerged item.
\<close>

definition forest_inv :: "nat \<Rightarrow> digraph \<Rightarrow> int list \<Rightarrow> bool" where
  "forest_inv N HT um \<longleftrightarrow>
     nodes HT = map int [0 ..< length (nodes HT)] \<and>
     node_attr HT = map (\<lambda>n. (n, [])) (nodes HT) \<and>
     edge_attr HT = map (\<lambda>e. (e, [])) (edges HT) \<and>
     length (nodes HT) + length um = 2 * N \<and>
     N \<le> length (nodes HT) \<and>
     (0 < N \<longrightarrow> um \<noteq> []) \<and>
     sorted_wrt (<) um \<and>
     set um = set (nodes HT) - snd ` set (edges HT) \<and>
     (\<forall>(p, c) \<in> set (edges HT). 0 \<le> c \<and> c < p \<and> p \<in> set (nodes HT)) \<and>
     distinct (map snd (edges HT)) \<and>
     (\<forall>n \<in> set (nodes HT).
        (n < int N \<longrightarrow> children HT n = []) \<and>
        (int N \<le> n \<longrightarrow> length (children HT n) = 2)) \<and>
     (\<forall>n \<in> set (nodes HT). \<exists>r \<in> set um. (r, n) \<in> (set (edges HT))\<^sup>*)"

section \<open>Lemmas about the lists and the graph operations\<close>

declare merge_loop.simps [simp del]

lemma index_pairs_Cons: "index_pairs (x # xs) = map (Pair x) xs @ index_pairs xs"
proof -
  have a: "[0 ..< length (x # xs)] = 0 # map Suc [0 ..< length xs]"
  proof -
    have "[0 ..< Suc (length xs)] = 0 # [Suc 0 ..< Suc (length xs)]"
      by (rule upt_conv_Cons) simp
    moreover have "length (x # xs) = Suc (length xs)" by simp
    ultimately show ?thesis by (simp only: map_Suc_upt)
  qed
  have b: "map (\<lambda>j. ((x # xs) ! 0, (x # xs) ! j)) [0 + 1 ..< length (x # xs)] = map (Pair x) xs"
    by (rule nth_equalityI) (simp_all del: upt_Suc)
  have c: "\<And>i. map (\<lambda>j. ((x # xs) ! Suc i, (x # xs) ! j)) [Suc i + 1 ..< length (x # xs)]
      = map (\<lambda>j. (xs ! i, xs ! j)) [i + 1 ..< length xs]"
    by (rule nth_equalityI) (simp_all del: upt_Suc)
  show ?thesis
    unfolding index_pairs_def a
    using b c by (simp add: comp_def del: upt_Suc)
qed

lemma index_pairs_Nil: "index_pairs [] = []"
  by (simp add: index_pairs_def)

lemma nodes_add_node: "nodes (add_node n G) = (if n \<in> set (nodes G) then nodes G else nodes G @ [n])"
  by (simp add: add_node_def nodes_def)

lemma edges_add_node: "edges (add_node n G) = edges G"
  by (simp add: add_node_def edges_def)

lemma nodes_fold_add_node:
  "distinct ns \<Longrightarrow> set ns \<inter> set (nodes G) = {} \<Longrightarrow> nodes (fold add_node ns G) = nodes G @ ns"
  by (induction ns arbitrary: G) (auto simp: nodes_add_node)

lemma edges_fold_add_node: "edges (fold add_node ns G) = edges G"
  by (induction ns arbitrary: G) (auto simp: edges_add_node)

lemma distinct_range_py: "distinct (range_py n)"
  by (simp add: range_py_def distinct_map)

lemma nodes_DiGraph: "nodes DiGraph = []"
  by (simp add: DiGraph_def nodes_def)

lemma edges_DiGraph: "edges DiGraph = []"
  by (simp add: DiGraph_def edges_def)

lemma nodes_initial_tree: "nodes (initial_tree q) = range_py q"
  by (simp add: initial_tree_def nodes_fold_add_node distinct_range_py nodes_DiGraph)

lemma edges_initial_tree: "edges (initial_tree q) = []"
  by (simp add: initial_tree_def edges_fold_add_node edges_DiGraph)

lemma range_py_ge2: "2 \<le> q \<Longrightarrow> \<exists>xs. range_py q = 0 # 1 # xs"
proof -
  assume "2 \<le> q"
  then obtain k where k: "nat q = Suc (Suc k)"
    by (cases "nat q"; cases "nat q - 1") auto
  show ?thesis
    by (simp add: range_py_def k upt_conv_Cons del: upt_Suc)
qed

lemma nodes_add_edge:
  "nodes (add_edge u v G) = nodes (add_node v (add_node u G))"
  by (simp add: add_edge_def Let_def nodes_def)

lemma node_attr_add_node:
  "node_attr (add_node n G) = (if n \<in> set (nodes G) then node_attr G else node_attr G @ [(n, [])])"
  by (simp add: add_node_def)

lemma edge_attr_add_node: "edge_attr (add_node n G) = edge_attr G"
  by (simp add: add_node_def)

lemma edges_add_edge:
  "edges (add_edge u v G) = (if (u, v) \<in> set (edges G) then edges G else edges G @ [(u, v)])"
  by (simp add: add_edge_def Let_def edges_def edge_attr_add_node)

lemma node_attr_add_edge:
  "node_attr (add_edge u v G) = node_attr (add_node v (add_node u G))"
  by (simp add: add_edge_def Let_def)

lemma edge_attr_add_edge:
  "edge_attr (add_edge u v G) =
     (if (u, v) \<in> set (edges G) then edge_attr G else edge_attr G @ [((u, v), [])])"
  by (simp add: add_edge_def Let_def edges_add_node edge_attr_add_node)

lemma merge_items_eq:
  assumes "new = int (length (nodes HT))" "new \<notin> set (nodes HT)"
    and "A \<in> set (nodes HT)" "B \<in> set (nodes HT)" "A \<noteq> B"
    and "A \<in> set um" "B \<in> set um"
    and "\<forall>e \<in> set (edges HT). fst e \<noteq> new"
  shows "merge_items (A, B) HT um =
    Inr (HT\<lparr>node_attr := node_attr HT @ [(new, [])],
             edge_attr := edge_attr HT @ [((new, A), []), ((new, B), [])]\<rparr>,
         remove1 B (remove1 A um) @ [new])"
proof -
  let ?H1 = "add_edge new A HT"
  let ?H2 = "add_edge new B ?H1"
  let ?H3 = "add_node new ?H2"
  have n1: "nodes ?H1 = nodes HT @ [new]"
    using assms(2-5) by (simp add: nodes_add_edge nodes_add_node)
  have e1: "edges ?H1 = edges HT @ [(new, A)]"
    using assms(8) by (auto simp: edges_add_edge)
  have n2: "nodes ?H2 = nodes HT @ [new]"
    using assms(2-5) by (simp add: nodes_add_edge nodes_add_node n1)
  have e2: "edges ?H2 = edges HT @ [(new, A), (new, B)]"
    using assms(5,8) by (auto simp: edges_add_edge e1)
  have a1: "node_attr ?H1 = node_attr HT @ [(new, [])]"
    using assms(2-5) by (simp add: node_attr_add_edge node_attr_add_node nodes_add_node)
  have a2: "node_attr ?H2 = node_attr HT @ [(new, [])]"
    using assms(2-5) by (simp add: node_attr_add_edge node_attr_add_node nodes_add_node n1 a1)
  have b1: "edge_attr ?H1 = edge_attr HT @ [((new, A), [])]"
    using assms(8) by (auto simp: edge_attr_add_edge)
  have b2: "edge_attr ?H2 = edge_attr HT @ [((new, A), []), ((new, B), [])]"
    using assms(5,8) by (auto simp: edge_attr_add_edge e1 b1)
  have h3: "?H3 = ?H2"
    by (simp add: add_node_def n2)
  have h2: "?H2 = HT\<lparr>node_attr := node_attr HT @ [(new, [])],
             edge_attr := edge_attr HT @ [((new, A), []), ((new, B), [])]\<rparr>"
    using a2 b2 by (cases ?H2; cases HT) simp
  have r: "B \<in> set (remove1 A um)"
    using assms by simp
  show ?thesis
    unfolding merge_items_def
    using assms(1, 6) r h2 h3 by (simp add: Let_def list_remove_def)
qed

lemma scan_pairs_member:
  "scan_pairs sc ps fm p g = (Inr (fm', Some pr), g') \<Longrightarrow> p = Some pr \<or> pr \<in> set ps"
proof (induction ps arbitrary: fm p g)
  case Nil
  then show ?case by simp
next
  case (Cons a ps)
  obtain A B where a: "a = (A, B)" by (cases a)
  show ?case
  proof (cases "sc A B g")
    case (Pair v g1)
    show ?thesis
    proof (cases v)
      case PyNone
      with Cons.prems a Pair show ?thesis by simp
    next
      case (PyNum f)
      with Cons.prems a Pair Cons.IH [of f "Some (A, B)" g1] Cons.IH [of fm p g1]
      show ?thesis by (auto split: if_splits)
    qed
  qed
qed

lemma find_pair_member:
  "find_pair sc um g = (Inr (fm, Some pr), g') \<Longrightarrow> pr \<in> set (index_pairs um)"
  using scan_pairs_member [of sc "index_pairs um" "- 1" None g fm pr g']
  by (simp add: find_pair_def)

lemma index_pairs_set:
  "(a, b) \<in> set (index_pairs xs) \<Longrightarrow> a \<in> set xs \<and> b \<in> set xs"
  by (induction xs) (auto simp: index_pairs_Cons index_pairs_Nil)

lemma index_pairs_less:
  "sorted_wrt (<) xs \<Longrightarrow> (a, b) \<in> set (index_pairs xs) \<Longrightarrow> a < b"
  by (induction xs) (auto simp: index_pairs_Cons index_pairs_Nil)

lemma index_pairs_complete:
  "sorted_wrt (<) xs \<Longrightarrow> a \<in> set xs \<Longrightarrow> b \<in> set xs \<Longrightarrow> a < (b::int)
    \<Longrightarrow> (a, b) \<in> set (index_pairs xs)"
  by (induction xs) (auto simp: index_pairs_Cons index_pairs_Nil)

section \<open>The loop invariant\<close>

lemma node_attr_fold_add_node:
  "distinct ns \<Longrightarrow> set ns \<inter> set (nodes G) = {} \<Longrightarrow>
   node_attr (fold add_node ns G) = node_attr G @ map (\<lambda>n. (n, [])) ns"
  by (induction ns arbitrary: G) (auto simp: node_attr_add_node nodes_add_node)

lemma edge_attr_fold_add_node: "edge_attr (fold add_node ns G) = edge_attr G"
  by (induction ns arbitrary: G) (auto simp: edge_attr_add_node)

lemma node_attr_initial_tree: "node_attr (initial_tree q) = map (\<lambda>n. (n, [])) (range_py q)"
  by (simp add: initial_tree_def node_attr_fold_add_node distinct_range_py nodes_DiGraph)
    (simp add: DiGraph_def)

lemma edge_attr_initial_tree: "edge_attr (initial_tree q) = []"
  by (simp add: initial_tree_def edge_attr_fold_add_node) (simp add: DiGraph_def)

lemma sorted_range_py: "sorted_wrt (<) (range_py q)"
  by (simp add: range_py_def sorted_wrt_map)

lemma forest_inv_init: "forest_inv (nat q) (initial_tree q) (nodes (initial_tree q))"
  unfolding forest_inv_def nodes_initial_tree edges_initial_tree node_attr_initial_tree
    edge_attr_initial_tree
  by (auto simp: range_py_def sorted_wrt_map children_def edges_initial_tree)

lemma sorted_wrt_remove1: "sorted_wrt P xs \<Longrightarrow> sorted_wrt P (remove1 x xs)"
  by (induction xs) (auto dest: notin_set_remove1)

lemma sorted_wrt_less_distinct: "sorted_wrt (<) (xs :: int list) \<Longrightarrow> distinct xs"
  by (induction xs) auto

lemma forest_inv_step:
  assumes inv: "forest_inv N HT um" and pr: "(A, B) \<in> set (index_pairs um)"
  shows "\<exists>HT' um'. merge_items (A, B) HT um = Inr (HT', um') \<and> forest_inv N HT' um' \<and>
    nodes HT' = nodes HT @ [int (length (nodes HT))] \<and>
    edges HT' = edges HT @ [(int (length (nodes HT)), A), (int (length (nodes HT)), B)] \<and>
    um' = remove1 B (remove1 A um) @ [int (length (nodes HT))]"
proof -
  define k where "k = length (nodes HT)"
  define new where "new = int k"
  have nodes: "nodes HT = map int [0 ..< k]"
    using inv by (simp add: forest_inv_def k_def)
  have na: "node_attr HT = map (\<lambda>n. (n, [])) (nodes HT)"
    and ea: "edge_attr HT = map (\<lambda>e. (e, [])) (edges HT)"
    and len: "k + length um = 2 * N" and Nk: "N \<le> k"
    and srt: "sorted_wrt (<) um"
    and rts: "set um = set (nodes HT) - snd ` set (edges HT)"
    and edg: "\<forall>(p, c) \<in> set (edges HT). 0 \<le> c \<and> c < p \<and> p \<in> set (nodes HT)"
    and par: "distinct (map snd (edges HT))"
    and chl: "\<forall>n \<in> set (nodes HT).
        (n < int N \<longrightarrow> children HT n = []) \<and>
        (int N \<le> n \<longrightarrow> length (children HT n) = 2)"
    and con: "\<forall>n \<in> set (nodes HT). \<exists>r \<in> set um. (r, n) \<in> (set (edges HT))\<^sup>*"
    using inv unfolding forest_inv_def k_def by - (elim conjE, assumption)+
  have dist: "distinct um" using srt by (rule sorted_wrt_less_distinct)
  have AB: "A \<in> set um" "B \<in> set um" "A < B"
    using index_pairs_set [OF pr] index_pairs_less [OF srt pr] by simp_all
  have ABn: "A \<in> set (nodes HT)" "B \<in> set (nodes HT)"
    and ABr: "A \<notin> snd ` set (edges HT)" "B \<notin> snd ` set (edges HT)"
    using AB rts by auto
  have below: "\<forall>n \<in> set (nodes HT). 0 \<le> n \<and> n < new"
    by (auto simp: nodes new_def)
  have newn: "new \<notin> set (nodes HT)"
    using below by auto
  have nofst: "\<forall>e \<in> set (edges HT). fst e \<noteq> new"
    using edg newn by auto
  have nosnd: "new \<notin> snd ` set (edges HT)"
    using edg below by fastforce
  define HT' where "HT' = HT\<lparr>node_attr := node_attr HT @ [(new, [])],
      edge_attr := edge_attr HT @ [((new, A), []), ((new, B), [])]\<rparr>"
  define um' where "um' = remove1 B (remove1 A um) @ [new]"
  have mi: "merge_items (A, B) HT um = Inr (HT', um')"
    unfolding HT'_def um'_def
    using newn ABn AB nofst
    by (intro merge_items_eq) (simp_all add: new_def k_def)
  have nodes': "nodes HT' = nodes HT @ [new]"
    by (simp add: HT'_def nodes_def)
  have edges': "edges HT' = edges HT @ [(new, A), (new, B)]"
    by (simp add: HT'_def edges_def)
  have c1: "nodes HT' = map int [0 ..< length (nodes HT')]"
    by (simp add: nodes' nodes new_def)
  have c2: "node_attr HT' = map (\<lambda>n. (n, [])) (nodes HT')"
    using na by (simp add: nodes') (simp add: HT'_def)
  have c3: "edge_attr HT' = map (\<lambda>e. (e, [])) (edges HT')"
    using ea by (simp add: edges') (simp add: HT'_def)
  have lum: "Suc (length um') = length um"
  proof -
    have "B \<in> set (remove1 A um)" using AB by simp
    then have "Suc (length (remove1 B (remove1 A um))) = length (remove1 A um)"
      by (metis One_nat_def Suc_pred length_pos_if_in_set length_remove1)
    moreover have "Suc (length (remove1 A um)) = length um"
      using AB(1) by (metis One_nat_def Suc_pred length_pos_if_in_set length_remove1)
    ultimately show ?thesis by (simp add: um'_def)
  qed
  have c4: "length (nodes HT') + length um' = 2 * N"
    using len lum by (simp add: nodes' k_def)
  have c5: "N \<le> length (nodes HT')"
    using Nk by (simp add: nodes' k_def)
  have c6: "0 < N \<longrightarrow> um' \<noteq> []"
    by (simp add: um'_def)
  have setum': "set um' = set um - {A, B} \<union> {new}"
    using dist by (auto simp: um'_def)
  have s1: "sorted_wrt (<) (remove1 B (remove1 A um))"
    using srt by (intro sorted_wrt_remove1)
  have "set (remove1 B (remove1 A um)) \<subseteq> set (nodes HT)"
    using dist rts by auto
  then have s2: "\<forall>x \<in> set (remove1 B (remove1 A um)). x < new"
    using below by blast
  have c7: "sorted_wrt (<) um'"
    by (simp add: um'_def sorted_wrt_append s1 s2)
  have c8: "set um' = set (nodes HT') - snd ` set (edges HT')"
    using rts nosnd newn AB by (auto simp: setum' nodes' edges')
  have c9: "\<forall>(p, c) \<in> set (edges HT'). 0 \<le> c \<and> c < p \<and> p \<in> set (nodes HT')"
    using edg below ABn by (auto simp: nodes' edges')
  have c10: "distinct (map snd (edges HT'))"
    using par ABr AB(3) by (auto simp: edges')
  have chnew: "children HT new = []"
    using nofst by (auto simp: children_def filter_empty_conv)
  have ch': "\<And>n. children HT' n = children HT n @ (if n = new then [A, B] else [])"
    by (simp add: children_def edges')
  have c11: "\<forall>n \<in> set (nodes HT').
        (n < int N \<longrightarrow> children HT' n = []) \<and>
        (int N \<le> n \<longrightarrow> length (children HT' n) = 2)"
    using chl newn Nk chnew by (auto simp: nodes' ch' new_def)
  have mono: "(set (edges HT))\<^sup>* \<subseteq> (set (edges HT'))\<^sup>*"
    by (rule rtrancl_mono) (auto simp: edges')
  have c12: "\<forall>n \<in> set (nodes HT'). \<exists>r \<in> set um'. (r, n) \<in> (set (edges HT'))\<^sup>*"
  proof
    fix n assume n: "n \<in> set (nodes HT')"
    show "\<exists>r \<in> set um'. (r, n) \<in> (set (edges HT'))\<^sup>*"
    proof (cases "n = new")
      case True
      then show ?thesis by (auto simp: setum')
    next
      case False
      with n have "n \<in> set (nodes HT)" by (simp add: nodes')
      with con obtain r where r: "r \<in> set um" "(r, n) \<in> (set (edges HT))\<^sup>*" by blast
      then have rn: "(r, n) \<in> (set (edges HT'))\<^sup>*" using mono by blast
      show ?thesis
      proof (cases "r = A \<or> r = B")
        case True
        then have "(new, r) \<in> set (edges HT')" by (auto simp: edges')
        then have "(new, n) \<in> (set (edges HT'))\<^sup>*"
          using rn by (rule converse_rtrancl_into_rtrancl)
        then show ?thesis by (auto simp: setum')
      next
        case False
        then have "r \<in> set um'" using r(1) by (simp add: setum')
        then show ?thesis using rn by blast
      qed
    qed
  qed
  have "forest_inv N HT' um'"
    unfolding forest_inv_def
    by (intro conjI c1 c2 c3 c4 c5 c6 c7 c8 c9 c10 c11 c12)
  with mi nodes' edges' show ?thesis
    by (simp add: new_def k_def um'_def)
qed

lemma merge_loop_short: "length um \<le> 1 \<Longrightarrow> merge_loop sc HT um g = (Inr HT, g)"
  by (subst merge_loop.simps) simp

lemma initial_tree_0: "initial_tree 0 = \<lparr>node_attr = [], edge_attr = []\<rparr>"
  by (simp add: initial_tree_def range_py_def DiGraph_def)

lemma initial_tree_1: "initial_tree 1 = \<lparr>node_attr = [(0, [])], edge_attr = []\<rparr>"
  by (simp add: initial_tree_def range_py_def DiGraph_def add_node_def nodes_def)

section \<open>Runs of the loop\<close>

lemma scan_pairs_frame:
  "\<forall>A B g. snd (sc A B g) = g \<Longrightarrow> snd (scan_pairs sc ps fm p g) = g"
proof (induction ps arbitrary: fm p)
  case Nil
  then show ?case by simp
next
  case (Cons a ps)
  obtain A B where a: "a = (A, B)" by (cases a)
  obtain v g1 where v: "sc A B g = (v, g1)" by (cases "sc A B g")
  with Cons.prems have g1: "g1 = g" by (metis snd_conv)
  show ?case
    using Cons.IH [OF Cons.prems] by (cases v) (simp_all add: a v g1)
qed

lemma loop_body_frame:
  "\<forall>A B g. snd (sc A B g) = g \<Longrightarrow> snd (loop_body sc HT um g) = g"
  using scan_pairs_frame [of sc "index_pairs um" "- 1" None g]
  by (auto simp: loop_body_def find_pair_def split: prod.splits sum.splits option.splits)

lemma merge_loop_frame:
  "\<forall>A B g. snd (sc A B g) = g \<Longrightarrow> snd (merge_loop sc HT um g) = g"
proof (induction sc HT um g rule: merge_loop.induct)
  case (1 sc HT um g)
  show ?case
  proof (cases "1 < length um")
    case False
    then show ?thesis by (subst merge_loop.simps) simp
  next
    case True
    obtain it g1 where b: "loop_body sc HT um g = (it, g1)" by (cases "loop_body sc HT um g")
    with loop_body_frame [OF "1.prems", of HT um g] have g1: "g1 = g" by simp
    show ?thesis
    proof (cases it)
      case (Next HT' um')
      with "1.IH" [OF True b [symmetric] _ "1.prems"] b True show ?thesis
        by (subst merge_loop.simps) (simp add: g1)
    qed (use b True g1 in \<open>subst merge_loop.simps, simp\<close>)+
  qed
qed

lemma loop_reaches_front:
  assumes "loop_reaches sc s1 s" "s1 = (HT1, um1, g1)"
    and "1 < length um" "loop_body sc HT um g = (Next HT1 um1, g1)"
  shows "loop_reaches sc (HT, um, g) s"
  using assms
proof (induction rule: loop_reaches.induct)
  case start
  show ?case
    unfolding start(1) using loop_reaches.start start(2,3) by (rule loop_reaches.iterate)
next
  case (iterate HT2 um2 g2 HT' um' g')
  then show ?case by (blast intro: loop_reaches.iterate)
qed

lemma loop_reaches_merge_loop:
  assumes "loop_reaches sc s0 s" "s0 = (HT0, um0, g0)" "s = (HT, um, g)"
  shows "merge_loop sc HT0 um0 g0 = merge_loop sc HT um g"
  using assms
proof (induction arbitrary: HT um g rule: loop_reaches.induct)
  case start
  then show ?case by simp
next
  case (iterate HT2 um2 g2 HT' um' g')
  have "merge_loop sc HT2 um2 g2 = merge_loop sc HT' um' g'"
    using iterate(2,3) by (subst merge_loop.simps) simp
  with iterate show ?case by simp
qed

lemma merge_loop_result:
  "merge_loop sc HT um g = (Inr HT', g') \<Longrightarrow>
   \<exists>um' g''. loop_reaches sc (HT, um, g) (HT', um', g'') \<and>
     (length um' \<le> 1 \<and> g'' = g' \<or>
      1 < length um' \<and> loop_body sc HT' um' g'' = (Broke, g'))"
proof (induction sc HT um g rule: merge_loop.induct)
  case (1 sc HT um g)
  show ?case
  proof (cases "1 < length um")
    case False
    with "1.prems" have "HT' = HT" "g' = g"
      by (simp_all add: merge_loop_short)
    with False loop_reaches.start [of sc "(HT, um, g)"] show ?thesis
      by (intro exI [of _ um] exI [of _ g]) simp
  next
    case True
    obtain it g1 where b: "loop_body sc HT um g = (it, g1)" by (cases "loop_body sc HT um g")
    show ?thesis
    proof (cases it)
      case (Raised e)
      with "1.prems" b True show ?thesis
        by (subst (asm) merge_loop.simps) simp
    next
      case Broke
      with "1.prems" b True have "HT' = HT" "g' = g1"
        by (subst (asm) merge_loop.simps, simp)+
      with True b Broke loop_reaches.start [of sc "(HT, um, g)"] show ?thesis
        by (intro exI [of _ um] exI [of _ g]) simp
    next
      case (Next HT1 um1)
      with "1.prems" b True have "merge_loop sc HT1 um1 g1 = (Inr HT', g')"
        by (subst (asm) merge_loop.simps) simp
      from "1.IH" [OF True b [symmetric] _ this] Next
      obtain um' g'' where r: "loop_reaches sc (HT1, um1, g1) (HT', um', g'')"
        and e: "length um' \<le> 1 \<and> g'' = g' \<or>
          1 < length um' \<and> loop_body sc HT' um' g'' = (Broke, g')"
        by blast
      have "loop_reaches sc (HT, um, g) (HT', um', g'')"
        using r _ True b [unfolded Next] by (rule loop_reaches_front) simp
      with e show ?thesis by blast
    qed
  qed
qed

lemma forest_inv_loop_body:
  assumes "forest_inv N HT um" "loop_body sc HT um g = (Next HT' um', g')"
  shows "forest_inv N HT' um'"
proof -
  from assms(2) obtain fm pr where f: "find_pair sc um g = (Inr (fm, Some pr), g')"
    and m: "merge_items pr HT um = Inr (HT', um')"
    by (auto simp: loop_body_def split: prod.splits sum.splits option.splits)
  obtain A B where pr: "pr = (A, B)" by (cases pr)
  from find_pair_member [OF f] have "(A, B) \<in> set (index_pairs um)" by (simp add: pr)
  from forest_inv_step [OF assms(1) this] m show ?thesis by (simp add: pr)
qed

lemma forest_inv_reaches:
  assumes "loop_reaches sc s0 s" "s0 = (HT0, um0, g0)" "s = (HT, um, g)"
    and "forest_inv N HT0 um0"
  shows "forest_inv N HT um"
  using assms
proof (induction arbitrary: HT um g rule: loop_reaches.induct)
  case start
  then show ?case by simp
next
  case (iterate HT2 um2 g2 HT' um' g')
  then have "forest_inv N HT2 um2" by simp
  from forest_inv_loop_body [OF this iterate(3)] iterate(6) show ?case by simp
qed

lemma forest_inv_start:
  "loop_reaches sc (loop_start q g) (HT, um, g') \<Longrightarrow> forest_inv (nat q) HT um"
proof -
  assume r: "loop_reaches sc (loop_start q g) (HT, um, g')"
  have s: "loop_start q g = (initial_tree q, nodes (initial_tree q), g)"
    by (simp add: loop_start_def)
  show ?thesis
    using r s refl forest_inv_init by (rule forest_inv_reaches)
qed

section \<open>Real-valued scores\<close>

lemma scan_pairs_real_stay:
  "\<forall>(A, B) \<in> set ps. f A B g \<le> fm \<Longrightarrow>
   scan_pairs (real_score f) ps fm p g = (Inr (fm, p), g)"
  by (induction ps arbitrary: fm p) (auto simp: real_score_def)

lemma scan_pairs_real:
  "\<exists>fm' p'. scan_pairs (real_score f) ps fm p g = (Inr (fm', p'), g) \<and>
     (\<forall>(A, B) \<in> set ps. f A B g \<le> fm') \<and>
     ((\<forall>(A, B) \<in> set ps. f A B g \<le> fm) \<and> fm' = fm \<and> p' = p \<or>
      (\<exists>A B pre post. p' = Some (A, B) \<and> ps = pre @ (A, B) # post \<and> f A B g = fm' \<and>
         fm < fm' \<and> (\<forall>(A', B') \<in> set pre. f A' B' g < fm')))"
proof (induction ps arbitrary: fm p)
  case Nil
  show ?case by simp
next
  case (Cons a ps)
  obtain A B where a: "a = (A, B)" by (cases a)
  define v where "v = f A B g"
  show ?case
  proof (cases "fm < v")
    case True
    then have s: "scan_pairs (real_score f) (a # ps) fm p g =
        scan_pairs (real_score f) ps v (Some (A, B)) g"
      by (simp add: a real_score_def v_def)
    from Cons.IH [of v "Some (A, B)"] obtain fm' p' where
      r: "scan_pairs (real_score f) ps v (Some (A, B)) g = (Inr (fm', p'), g)"
      and u: "\<forall>(A, B) \<in> set ps. f A B g \<le> fm'"
      and d: "(\<forall>(A, B) \<in> set ps. f A B g \<le> v) \<and> fm' = v \<and> p' = Some (A, B) \<or>
        (\<exists>A2 B2 pre post. p' = Some (A2, B2) \<and> ps = pre @ (A2, B2) # post \<and>
           f A2 B2 g = fm' \<and> v < fm' \<and> (\<forall>(A', B') \<in> set pre. f A' B' g < fm'))"
      by blast
    from d show ?thesis
    proof
      assume h: "(\<forall>(A, B) \<in> set ps. f A B g \<le> v) \<and> fm' = v \<and> p' = Some (A, B)"
      have "p' = Some (A, B) \<and> a # ps = [] @ (A, B) # ps \<and> f A B g = fm' \<and> fm < fm' \<and>
          (\<forall>(A', B') \<in> set []. f A' B' g < fm')"
        using h True by (simp add: a v_def)
      then have "\<exists>A B pre post. p' = Some (A, B) \<and> a # ps = pre @ (A, B) # post \<and>
          f A B g = fm' \<and> fm < fm' \<and> (\<forall>(A', B') \<in> set pre. f A' B' g < fm')"
        by blast
      moreover have "\<forall>(A, B) \<in> set (a # ps). f A B g \<le> fm'"
        using u h by (simp add: a v_def)
      ultimately show ?thesis using s r by simp
    next
      assume "\<exists>A2 B2 pre post. p' = Some (A2, B2) \<and> ps = pre @ (A2, B2) # post \<and>
           f A2 B2 g = fm' \<and> v < fm' \<and> (\<forall>(A', B') \<in> set pre. f A' B' g < fm')"
      then obtain A2 B2 pre post where h: "p' = Some (A2, B2)" "ps = pre @ (A2, B2) # post"
        "f A2 B2 g = fm'" "v < fm'" "\<forall>(A', B') \<in> set pre. f A' B' g < fm'"
        by blast
      have "p' = Some (A2, B2) \<and> a # ps = (a # pre) @ (A2, B2) # post \<and> f A2 B2 g = fm' \<and>
          fm < fm' \<and> (\<forall>(A', B') \<in> set (a # pre). f A' B' g < fm')"
        using h True by (simp add: a v_def)
      then have "\<exists>A B pre post. p' = Some (A, B) \<and> a # ps = pre @ (A, B) # post \<and>
          f A B g = fm' \<and> fm < fm' \<and> (\<forall>(A', B') \<in> set pre. f A' B' g < fm')"
        by blast
      moreover have "\<forall>(A, B) \<in> set (a # ps). f A B g \<le> fm'"
        using u h(4) by (simp add: a v_def)
      ultimately show ?thesis using s r by simp
    qed
  next
    case False
    then have s: "scan_pairs (real_score f) (a # ps) fm p g =
        scan_pairs (real_score f) ps fm p g"
      by (simp add: a real_score_def v_def)
    from Cons.IH [of fm p] obtain fm' p' where
      r: "scan_pairs (real_score f) ps fm p g = (Inr (fm', p'), g)"
      and u: "\<forall>(A, B) \<in> set ps. f A B g \<le> fm'"
      and d: "(\<forall>(A, B) \<in> set ps. f A B g \<le> fm) \<and> fm' = fm \<and> p' = p \<or>
        (\<exists>A2 B2 pre post. p' = Some (A2, B2) \<and> ps = pre @ (A2, B2) # post \<and>
           f A2 B2 g = fm' \<and> fm < fm' \<and> (\<forall>(A', B') \<in> set pre. f A' B' g < fm'))"
      by blast
    from d show ?thesis
    proof
      assume h: "(\<forall>(A, B) \<in> set ps. f A B g \<le> fm) \<and> fm' = fm \<and> p' = p"
      then have "(\<forall>(A, B) \<in> set (a # ps). f A B g \<le> fm) \<and> fm' = fm \<and> p' = p"
        using False by (simp add: a v_def)
      moreover have "\<forall>(A, B) \<in> set (a # ps). f A B g \<le> fm'"
        using u h False by (simp add: a v_def)
      ultimately show ?thesis using s r by simp
    next
      assume "\<exists>A2 B2 pre post. p' = Some (A2, B2) \<and> ps = pre @ (A2, B2) # post \<and>
           f A2 B2 g = fm' \<and> fm < fm' \<and> (\<forall>(A', B') \<in> set pre. f A' B' g < fm')"
      then obtain A2 B2 pre post where h: "p' = Some (A2, B2)" "ps = pre @ (A2, B2) # post"
        "f A2 B2 g = fm'" "fm < fm'" "\<forall>(A', B') \<in> set pre. f A' B' g < fm'"
        by blast
      have "p' = Some (A2, B2) \<and> a # ps = (a # pre) @ (A2, B2) # post \<and> f A2 B2 g = fm' \<and>
          fm < fm' \<and> (\<forall>(A', B') \<in> set (a # pre). f A' B' g < fm')"
        using h False by (simp add: a v_def)
      then have "\<exists>A B pre post. p' = Some (A, B) \<and> a # ps = pre @ (A, B) # post \<and>
          f A B g = fm' \<and> fm < fm' \<and> (\<forall>(A', B') \<in> set pre. f A' B' g < fm')"
        by blast
      moreover have "\<forall>(A, B) \<in> set (a # ps). f A B g \<le> fm'"
        using u h(4) False by (simp add: a v_def)
      ultimately show ?thesis using s r by simp
    qed
  qed
qed

lemma find_pair_real_Some:
  assumes "find_pair (real_score f) um g = (Inr (fm, Some (A, B)), g')"
  shows "g' = g \<and> f A B g = fm \<and> - 1 < fm \<and>
    (\<forall>(A', B') \<in> set (index_pairs um). f A' B' g \<le> fm) \<and>
    (\<exists>pre post. index_pairs um = pre @ (A, B) # post \<and>
       (\<forall>(A', B') \<in> set pre. f A' B' g < fm))"
  using scan_pairs_real [of f "index_pairs um" "- 1" None g] assms
  by (auto simp: find_pair_def)

lemma index_pairs_lex_sorted:
  "sorted_wrt (<) (xs :: int list) \<Longrightarrow>
   sorted_wrt (\<lambda>(a, b) (c, d). a < c \<or> (a = c \<and> b < d)) (index_pairs xs)"
proof (induction xs)
  case Nil
  show ?case by (simp add: index_pairs_Nil)
next
  case (Cons x xs)
  have "sorted_wrt (\<lambda>(a, b) (c, d). a < c \<or> (a = c \<and> b < d)) (map (Pair x) xs)"
    using Cons.prems by (simp add: sorted_wrt_map)
  moreover have "\<forall>p \<in> set (map (Pair x) xs). \<forall>q \<in> set (index_pairs xs).
      (case p of (a, b) \<Rightarrow> \<lambda>(c, d). a < c \<or> (a = c \<and> b < d)) q"
    using Cons.prems by (auto dest: index_pairs_set)
  ultimately show ?case
    using Cons by (simp add: index_pairs_Cons sorted_wrt_append)
qed

lemma forest_inv_roots: "forest_inv N HT um \<Longrightarrow> roots HT = um"
proof -
  assume inv: "forest_inv N HT um"
  then have n: "nodes HT = map int [0 ..< length (nodes HT)]"
    and s: "sorted_wrt (<) um"
    and r: "set um = set (nodes HT) - snd ` set (edges HT)"
    unfolding forest_inv_def by - (elim conjE, assumption)+
  have "sorted_wrt (<) (nodes HT)"
    by (subst n) (simp add: sorted_wrt_map)
  then have "sorted_wrt (<) (roots HT)"
    unfolding roots_def by (rule sorted_wrt_filter)
  moreover have "set (roots HT) = set um"
    by (auto simp: roots_def r)
  ultimately show ?thesis
    using s by (metis strict_sorted_equal)
qed

lemma loop_reaches_real_graph:
  assumes "loop_reaches (real_score f) s0 s" "s0 = (HT0, um0, g0)" "s = (HT, um, g)"
  shows "g = g0"
  using assms
proof (induction arbitrary: HT um g rule: loop_reaches.induct)
  case start
  then show ?case by simp
next
  case (iterate HT2 um2 g2 HT' um' g')
  have "snd (loop_body (real_score f) HT2 um2 g2) = g2"
    by (rule loop_body_frame) (simp add: real_score_def)
  with iterate show ?case by simp
qed

section \<open>Evaluation of single steps\<close>

lemma merge_loop_Next:
  "1 < length um \<Longrightarrow> loop_body sc HT um g = (Next HT' um', g') \<Longrightarrow>
   merge_loop sc HT um g = merge_loop sc HT' um' g'"
  by (subst merge_loop.simps) simp

lemma merge_loop_Broke:
  "1 < length um \<Longrightarrow> loop_body sc HT um g = (Broke, g') \<Longrightarrow>
   merge_loop sc HT um g = (Inr HT, g')"
  by (subst merge_loop.simps) simp

lemma find_pair_const_above:
  "- 1 < m \<Longrightarrow> find_pair (const_score m) (a # b # xs) g = (Inr (m, Some (a, b)), g)"
proof -
  assume m: "- 1 < m"
  have "scan_pairs (real_score (\<lambda>A B g. m)) (map (Pair a) xs @ index_pairs (b # xs)) m
      (Some (a, b)) g = (Inr (m, Some (a, b)), g)"
    by (rule scan_pairs_real_stay) simp
  then show ?thesis
    using m by (simp add: find_pair_def index_pairs_Cons [of a] const_score_def real_score_def)
qed

lemma find_pair_const_below:
  "m \<le> - 1 \<Longrightarrow> find_pair (const_score m) um g = (Inr (- 1, None), g)"
  unfolding find_pair_def const_score_def
  by (rule scan_pairs_real_stay) simp

lemma initial_tree_2: "initial_tree 2 = \<lparr>node_attr = [(0, []), (1, [])], edge_attr = []\<rparr>"
  by (simp add: initial_tree_def range_py_def DiGraph_def add_node_def nodes_def
      upt_conv_Cons del: upt_Suc)

lemma initial_tree_4:
  "initial_tree 4 = \<lparr>node_attr = [(0, []), (1, []), (2, []), (3, [])], edge_attr = []\<rparr>"
  by (simp add: initial_tree_def range_py_def DiGraph_def add_node_def nodes_def
      upt_conv_Cons del: upt_Suc)

lemmas merge_eval = merge_items_def list_remove_def add_edge_def add_node_def nodes_def
  edges_def Let_def

lemma merge_4_first:
  "merge_items (0, 1) \<lparr>node_attr = [(0, []), (1, []), (2, []), (3, [])], edge_attr = []\<rparr>
     [0, 1, 2, 3] =
   Inr (\<lparr>node_attr = [(0, []), (1, []), (2, []), (3, []), (4, [])],
          edge_attr = [((4, 0), []), ((4, 1), [])]\<rparr>, [2, 3, 4])"
  by (simp add: merge_eval)

lemma merge_4_second:
  "merge_items (2, 3) \<lparr>node_attr = [(0, []), (1, []), (2, []), (3, []), (4, [])],
          edge_attr = [((4, 0), []), ((4, 1), [])]\<rparr> [2, 3, 4] =
   Inr (\<lparr>node_attr = [(0, []), (1, []), (2, []), (3, []), (4, []), (5, [])],
          edge_attr = [((4, 0), []), ((4, 1), []), ((5, 2), []), ((5, 3), [])]\<rparr>, [4, 5])"
  by (simp add: merge_eval)

lemma merge_4_third:
  "merge_items (4, 5) \<lparr>node_attr = [(0, []), (1, []), (2, []), (3, []), (4, []), (5, [])],
          edge_attr = [((4, 0), []), ((4, 1), []), ((5, 2), []), ((5, 3), [])]\<rparr> [4, 5] =
   Inr (\<lparr>node_attr = [(0, []), (1, []), (2, []), (3, []), (4, []), (5, []), (6, [])],
          edge_attr = [((4, 0), []), ((4, 1), []), ((5, 2), []), ((5, 3), []),
            ((6, 4), []), ((6, 5), [])]\<rparr>, [6])"
  by (simp add: merge_eval)

lemma merge_2_first:
  "merge_items (0, 1) \<lparr>node_attr = [(0, []), (1, [])], edge_attr = []\<rparr> [0, 1] =
   Inr (\<lparr>node_attr = [(0, []), (1, []), (2, [])],
          edge_attr = [((2, 0), []), ((2, 1), [])]\<rparr>, [2])"
  by (simp add: merge_eval)

lemma generate_frame:
  "\<forall>A B g. snd (sc A B g) = g \<Longrightarrow> snd (generate_hierarchy_tree sc qubits g) = g"
  unfolding generate_hierarchy_tree_def Let_def by (rule merge_loop_frame)

lemma real_score_frame: "\<forall>A B g. snd (real_score f A B g) = g"
  by (simp add: real_score_def)

lemma const_score_frame: "\<forall>A B g. snd (const_score m A B g) = g"
  by (simp add: const_score_def real_score_def)

lemma F_frame: "\<forall>A B g. snd (F A B g) = g"
  by (simp add: F_def)

lemma generate_result_inv:
  assumes "generate_hierarchy_tree sc qubits g = (Inr HT, g')"
  shows "\<exists>um g''. loop_reaches sc (loop_start qubits g) (HT, um, g'') \<and>
    forest_inv (nat qubits) HT um \<and>
    (length um \<le> 1 \<and> g'' = g' \<or> 1 < length um \<and> loop_body sc HT um g'' = (Broke, g'))"
proof -
  from assms have "merge_loop sc (initial_tree qubits) (nodes (initial_tree qubits)) g =
      (Inr HT, g')"
    by (simp add: generate_hierarchy_tree_def Let_def)
  from merge_loop_result [OF this] obtain um g'' where
    r: "loop_reaches sc (loop_start qubits g) (HT, um, g'')"
    and e: "length um \<le> 1 \<and> g'' = g' \<or> 1 < length um \<and> loop_body sc HT um g'' = (Broke, g')"
    unfolding loop_start_def by blast
  from forest_inv_start [OF r] r e show ?thesis by blast
qed

lemma generate_const_2:
  "- 1 < m \<Longrightarrow> generate_hierarchy_tree (const_score m) 2 g =
     (Inr \<lparr>node_attr = [(0, []), (1, []), (2, [])],
           edge_attr = [((2, 0), []), ((2, 1), [])]\<rparr>, g)"
proof -
  assume m: "- 1 < m"
  have b: "loop_body (const_score m) \<lparr>node_attr = [(0, []), (1, [])], edge_attr = []\<rparr> [0, 1] g =
      (Next \<lparr>node_attr = [(0, []), (1, []), (2, [])],
           edge_attr = [((2, 0), []), ((2, 1), [])]\<rparr> [2], g)"
    by (simp add: loop_body_def find_pair_const_above [OF m] merge_2_first)
  have n: "nodes \<lparr>node_attr = [(0, []), (1, [])], edge_attr = []\<rparr> = [0, 1]"
    by (simp add: nodes_def)
  have "merge_loop (const_score m) \<lparr>node_attr = [(0, []), (1, [])], edge_attr = []\<rparr> [0, 1] g =
      merge_loop (const_score m) \<lparr>node_attr = [(0, []), (1, []), (2, [])],
           edge_attr = [((2, 0), []), ((2, 1), [])]\<rparr> [2] g"
    by (rule merge_loop_Next [OF _ b]) simp
  also have "\<dots> = (Inr \<lparr>node_attr = [(0, []), (1, []), (2, [])],
           edge_attr = [((2, 0), []), ((2, 1), [])]\<rparr>, g)"
    by (rule merge_loop_short) simp
  finally show ?thesis
    unfolding generate_hierarchy_tree_def Let_def initial_tree_2 n .
qed


section \<open>The selected pair, totality and the shape of the tree\<close>

lemma forest_inv_sorted: "forest_inv N HT um \<Longrightarrow> sorted_wrt (<) um"
  unfolding forest_inv_def by (elim conjE)

lemma loop_body_real_Next:
  assumes inv: "forest_inv N HT um"
    and f: "find_pair (real_score f) um g = (Inr (fm, Some (A, B)), g)"
  shows "\<exists>HT' um'. loop_body (real_score f) HT um g = (Next HT' um', g) \<and>
    forest_inv N HT' um' \<and>
    nodes HT' = nodes HT @ [int (length (nodes HT))] \<and>
    edges HT' = edges HT @ [(int (length (nodes HT)), A), (int (length (nodes HT)), B)] \<and>
    um' = remove1 B (remove1 A um) @ [int (length (nodes HT))]"
proof -
  from find_pair_member [OF f] have "(A, B) \<in> set (index_pairs um)" .
  from forest_inv_step [OF inv this] obtain HT' um' where
    m: "merge_items (A, B) HT um = Inr (HT', um')" and
    r: "forest_inv N HT' um'"
      "nodes HT' = nodes HT @ [int (length (nodes HT))]"
      "edges HT' = edges HT @ [(int (length (nodes HT)), A), (int (length (nodes HT)), B)]"
      "um' = remove1 B (remove1 A um) @ [int (length (nodes HT))]"
    by blast
  have "loop_body (real_score f) HT um g = (Next HT' um', g)"
    by (simp add: loop_body_def f m)
  with r show ?thesis by blast
qed

lemma find_pair_real_max:
  assumes srt: "sorted_wrt (<) um"
    and mem: "A' \<in> set um" "B' \<in> set um" "A' < B'"
    and mx: "\<forall>X \<in> set um. \<forall>Y \<in> set um. X < Y \<longrightarrow> f X Y g \<le> f A' B' g"
    and ab: "- 1 < f A' B' g"
  shows "\<exists>A B. find_pair (real_score f) um g = (Inr (f A' B' g, Some (A, B)), g) \<and>
    f A B g = f A' B' g \<and> A \<in> set um \<and> B \<in> set um \<and> A < B \<and>
    (A < A' \<or> (A = A' \<and> B \<le> B'))"
proof -
  have in': "(A', B') \<in> set (index_pairs um)"
    using srt mem by (rule index_pairs_complete)
  from scan_pairs_real [of f "index_pairs um" "- 1" None g] obtain fm p where
    sc: "find_pair (real_score f) um g = (Inr (fm, p), g)"
    and up: "\<forall>(X, Y) \<in> set (index_pairs um). f X Y g \<le> fm"
    and d: "(\<forall>(A, B) \<in> set (index_pairs um). f A B g \<le> - 1) \<and> fm = - 1 \<and> p = None \<or>
      (\<exists>A B pre post. p = Some (A, B) \<and> index_pairs um = pre @ (A, B) # post \<and> f A B g = fm \<and>
         - 1 < fm \<and> (\<forall>(A', B') \<in> set pre. f A' B' g < fm))"
    unfolding find_pair_def by blast
  from in' ab have "\<not> (\<forall>(A, B) \<in> set (index_pairs um). f A B g \<le> - 1)"
    by fastforce
  with d obtain A B pre post where p: "p = Some (A, B)"
    and ps: "index_pairs um = pre @ (A, B) # post" and fAB: "f A B g = fm"
    and pre: "\<forall>(X, Y) \<in> set pre. f X Y g < fm"
    by blast
  have inAB: "(A, B) \<in> set (index_pairs um)" by (simp add: ps)
  then have AB: "A \<in> set um" "B \<in> set um" "A < B"
    using index_pairs_set [OF inAB] index_pairs_less [OF srt inAB] by simp_all
  have "fm \<le> f A' B' g" using mx AB fAB by blast
  moreover have "f A' B' g \<le> fm" using up in' by blast
  ultimately have eq: "fm = f A' B' g" by simp
  have "(A', B') \<notin> set pre" using pre eq by fastforce
  with in' have "(A', B') = (A, B) \<or> (A', B') \<in> set post" by (simp add: ps)
  moreover have "\<forall>q \<in> set post. (case (A, B) of (a, b) \<Rightarrow> \<lambda>(c, d). a < c \<or> (a = c \<and> b < d)) q"
    using index_pairs_lex_sorted [OF srt] by (simp add: ps sorted_wrt_append)
  ultimately have "A < A' \<or> (A = A' \<and> B \<le> B')" by fastforce
  with sc p fAB eq AB show ?thesis by simp
qed

lemma no_parent_rtrancl: "(r, n) \<in> E\<^sup>* \<Longrightarrow> n \<notin> snd ` E \<Longrightarrow> r = n"
  by (erule rtranclE) (auto simp: image_iff)

lemma two_elements:
  "1 < length xs \<Longrightarrow> distinct xs \<Longrightarrow> \<exists>a b. a \<in> set xs \<and> b \<in> set xs \<and> a \<noteq> b"
  by (cases xs; cases "tl xs") auto

lemma loop_body_4_first:
  "- 1 < m \<Longrightarrow>
   loop_body (const_score m)
     \<lparr>node_attr = [(0, []), (1, []), (2, []), (3, [])], edge_attr = []\<rparr> [0, 1, 2, 3] g =
   (Next \<lparr>node_attr = [(0, []), (1, []), (2, []), (3, []), (4, [])],
          edge_attr = [((4, 0), []), ((4, 1), [])]\<rparr> [2, 3, 4], g)"
  by (simp add: loop_body_def find_pair_const_above merge_4_first)

lemma loop_body_4_second:
  "- 1 < m \<Longrightarrow>
   loop_body (const_score m)
     \<lparr>node_attr = [(0, []), (1, []), (2, []), (3, []), (4, [])],
          edge_attr = [((4, 0), []), ((4, 1), [])]\<rparr> [2, 3, 4] g =
   (Next \<lparr>node_attr = [(0, []), (1, []), (2, []), (3, []), (4, []), (5, [])],
          edge_attr = [((4, 0), []), ((4, 1), []), ((5, 2), []), ((5, 3), [])]\<rparr> [4, 5], g)"
  by (simp add: loop_body_def find_pair_const_above merge_4_second)

lemma loop_body_4_third:
  "- 1 < m \<Longrightarrow>
   loop_body (const_score m)
     \<lparr>node_attr = [(0, []), (1, []), (2, []), (3, []), (4, []), (5, [])],
          edge_attr = [((4, 0), []), ((4, 1), []), ((5, 2), []), ((5, 3), [])]\<rparr> [4, 5] g =
   (Next \<lparr>node_attr = [(0, []), (1, []), (2, []), (3, []), (4, []), (5, []), (6, [])],
          edge_attr = [((4, 0), []), ((4, 1), []), ((5, 2), []), ((5, 3), []),
            ((6, 4), []), ((6, 5), [])]\<rparr> [6], g)"
  by (simp add: loop_body_def find_pair_const_above merge_4_third)

lemma loop_start_4:
  "loop_start 4 g =
     (\<lparr>node_attr = [(0, []), (1, []), (2, []), (3, [])], edge_attr = []\<rparr>, [0, 1, 2, 3], g)"
  by (simp add: loop_start_def initial_tree_4 nodes_def)

lemma reaches_4_second:
  "- 1 < m \<Longrightarrow>
   loop_reaches (const_score m) (loop_start 4 g)
     (\<lparr>node_attr = [(0, []), (1, []), (2, []), (3, []), (4, [])],
          edge_attr = [((4, 0), []), ((4, 1), [])]\<rparr>, [2, 3, 4], g)"
  by (rule loop_reaches.iterate [OF loop_reaches.start [unfolded loop_start_4] _ loop_body_4_first,
        folded loop_start_4])
    simp_all

lemma initial_tree_3:
  "initial_tree 3 = \<lparr>node_attr = [(0, []), (1, []), (2, [])], edge_attr = []\<rparr>"
  by (simp add: initial_tree_def range_py_def DiGraph_def add_node_def nodes_def
      upt_conv_Cons del: upt_Suc)

lemma loop_start_3:
  "loop_start 3 g = (\<lparr>node_attr = [(0, []), (1, []), (2, [])], edge_attr = []\<rparr>, [0, 1, 2], g)"
  by (simp add: loop_start_def initial_tree_3 nodes_def)

lemma merge_3_first:
  "merge_items (0, 1) \<lparr>node_attr = [(0, []), (1, []), (2, [])], edge_attr = []\<rparr> [0, 1, 2] =
   Inr (\<lparr>node_attr = [(0, []), (1, []), (2, []), (3, [])],
          edge_attr = [((3, 0), []), ((3, 1), [])]\<rparr>, [2, 3])"
  by (simp add: merge_eval)

lemma loop_body_3_first:
  "loop_body (real_score (\<lambda>A B g. if A = 0 \<and> B = 1 then 0 else - 1))
     \<lparr>node_attr = [(0, []), (1, []), (2, [])], edge_attr = []\<rparr> [0, 1, 2] g =
   (Next \<lparr>node_attr = [(0, []), (1, []), (2, []), (3, [])],
          edge_attr = [((3, 0), []), ((3, 1), [])]\<rparr> [2, 3], g)"
  by (simp add: loop_body_def find_pair_def index_pairs_Cons index_pairs_Nil real_score_def
      merge_3_first)

lemma reaches_3_second:
  "loop_reaches (real_score (\<lambda>A B g. if A = 0 \<and> B = 1 then 0 else - 1)) (loop_start 3 g)
     (\<lparr>node_attr = [(0, []), (1, []), (2, []), (3, [])],
          edge_attr = [((3, 0), []), ((3, 1), [])]\<rparr>, [2, 3], g)"
  by (rule loop_reaches.iterate [OF loop_reaches.start [unfolded loop_start_3] _ loop_body_3_first,
        folded loop_start_3])
    simp

lemma forest_inv_nodes: "forest_inv N HT um \<Longrightarrow> nodes HT = map int [0 ..< length (nodes HT)]"
  unfolding forest_inv_def by (elim conjE)

lemma forest_inv_count: "forest_inv N HT um \<Longrightarrow> length (nodes HT) + length um = 2 * N"
  unfolding forest_inv_def by (elim conjE)

lemma forest_inv_roots_set:
  "forest_inv N HT um \<Longrightarrow> set um = set (nodes HT) - snd ` set (edges HT)"
  unfolding forest_inv_def by (elim conjE)

lemma forest_inv_nonneg:
  assumes "forest_inv N HT um" "x \<in> set um"
  shows "0 \<le> x"
proof -
  have "x \<in> set (nodes HT)"
    using assms forest_inv_roots_set by blast
  then have "x \<in> set (map int [0 ..< length (nodes HT)])"
    using forest_inv_nodes [OF assms(1)] by simp
  then show ?thesis by auto
qed

lemma index_pairs_nonempty: "index_pairs (a # b # xs) \<noteq> []"
  by (simp add: index_pairs_Cons)

lemma merge_loop_real_total:
  assumes pos: "\<forall>A B. 0 \<le> A \<and> A < B \<longrightarrow> - 1 < f A B g"
  shows "forest_inv N HT um \<Longrightarrow>
    \<exists>HT' um'. merge_loop (real_score f) HT um g = (Inr HT', g) \<and> forest_inv N HT' um' \<and>
      length um' \<le> 1"
proof (induction "length um" arbitrary: HT um rule: less_induct)
  case less
  note inv = less.prems
  show ?case
  proof (cases "1 < length um")
    case False
    then have "merge_loop (real_score f) HT um g = (Inr HT, g)"
      by (intro merge_loop_short) simp
    with inv False show ?thesis by (intro exI [of _ HT] exI [of _ um]) simp
  next
    case True
    then obtain a b xs where um: "um = a # b # xs"
      by (cases um; cases "tl um") auto
    have srt: "sorted_wrt (<) um" using inv by (rule forest_inv_sorted)
    have ab: "(a, b) \<in> set (index_pairs um)"
      by (simp add: um index_pairs_Cons)
    have "0 \<le> a" using inv by (rule forest_inv_nonneg) (simp add: um)
    moreover have "a < b" using srt ab by (rule index_pairs_less)
    ultimately have big: "- 1 < f a b g" using pos by blast
    from scan_pairs_real [of f "index_pairs um" "- 1" None g] obtain fm p where
      sc: "find_pair (real_score f) um g = (Inr (fm, p), g)"
      and d: "(\<forall>(A, B) \<in> set (index_pairs um). f A B g \<le> - 1) \<and> fm = - 1 \<and> p = None \<or>
        (\<exists>A B pre post. p = Some (A, B) \<and> index_pairs um = pre @ (A, B) # post \<and>
           f A B g = fm \<and> - 1 < fm \<and> (\<forall>(A', B') \<in> set pre. f A' B' g < fm))"
      unfolding find_pair_def by blast
    from ab big have "\<not> (\<forall>(A, B) \<in> set (index_pairs um). f A B g \<le> - 1)"
      by fastforce
    with d obtain A B where "p = Some (A, B)" by blast
    with sc have fp: "find_pair (real_score f) um g = (Inr (fm, Some (A, B)), g)" by simp
    from loop_body_real_Next [OF inv fp] obtain HT' um' where
      lb: "loop_body (real_score f) HT um g = (Next HT' um', g)"
      and inv': "forest_inv N HT' um'"
      and n': "nodes HT' = nodes HT @ [int (length (nodes HT))]"
      by blast
    have "length um' < length um"
      using forest_inv_count [OF inv] forest_inv_count [OF inv'] by (simp add: n')
    from less.hyps [OF this inv'] obtain HT2 um2 where
      "merge_loop (real_score f) HT' um' g = (Inr HT2, g)" "forest_inv N HT2 um2"
      "length um2 \<le> 1"
      by blast
    with merge_loop_Next [OF True lb] show ?thesis by auto
  qed
qed

lemma edges_trancl_less:
  "(a, b) \<in> E\<^sup>+ \<Longrightarrow> \<forall>(p, c) \<in> E. c < (p :: int) \<Longrightarrow> b < a"
  by (induction rule: trancl.induct) auto

lemma edges_rtrancl_le:
  "(a, b) \<in> E\<^sup>* \<Longrightarrow> \<forall>(p, c) \<in> E. c < (p :: int) \<Longrightarrow> b \<le> a"
  by (induction rule: rtrancl.induct) auto

lemma filter_less_upt: "N \<le> k \<Longrightarrow> filter (\<lambda>i. i < N) [0 ..< k] = [0 ..< N]"
proof -
  assume "N \<le> k"
  then have "[0 ..< k] = [0 ..< N] @ [N ..< k]"
    using upt_add_eq_append [of 0 N "k - N"] by simp
  then show ?thesis by simp
qed

lemma filter_ge_upt: "N \<le> k \<Longrightarrow> filter (\<lambda>i. N \<le> i) [0 ..< k] = [N ..< k]"
proof -
  assume "N \<le> k"
  then have "[0 ..< k] = [0 ..< N] @ [N ..< k]"
    using upt_add_eq_append [of 0 N "k - N"] by simp
  then show ?thesis by simp
qed

lemma forest_inv_shape:
  assumes inv: "forest_inv N HT um"
  shows "leaves HT = map int [0 ..< N]"
    and "internal_nodes HT = map int [N ..< length (nodes HT)]"
    and "\<forall>n \<in> set (internal_nodes HT). length (children HT n) = 2"
    and "acyclic (set (edges HT))"
    and "distinct (map snd (edges HT))"
proof -
  define k where "k = length (nodes HT)"
  have nodes: "nodes HT = map int [0 ..< k]"
    and Nk: "N \<le> k"
    and edg: "\<forall>(p, c) \<in> set (edges HT). 0 \<le> c \<and> c < p \<and> p \<in> set (nodes HT)"
    and par: "distinct (map snd (edges HT))"
    and chl: "\<forall>n \<in> set (nodes HT).
        (n < int N \<longrightarrow> children HT n = []) \<and>
        (int N \<le> n \<longrightarrow> length (children HT n) = 2)"
    using inv unfolding forest_inv_def k_def by - (elim conjE, assumption)+
  have l: "\<And>n. n \<in> set (nodes HT) \<Longrightarrow> children HT n = [] \<longleftrightarrow> n < int N"
    using chl by fastforce
  have "leaves HT = filter (\<lambda>n. n < int N) (nodes HT)"
    unfolding leaves_def using l by (intro filter_cong) auto
  also have "\<dots> = map int (filter (\<lambda>i. i < N) [0 ..< k])"
    by (simp add: nodes filter_map comp_def)
  finally show "leaves HT = map int [0 ..< N]"
    using Nk by (simp add: filter_less_upt)
  have "internal_nodes HT = filter (\<lambda>n. int N \<le> n) (nodes HT)"
    unfolding internal_nodes_def using l by (intro filter_cong) auto
  also have "\<dots> = map int (filter (\<lambda>i. N \<le> i) [0 ..< k])"
    by (simp add: nodes filter_map comp_def)
  finally show "internal_nodes HT = map int [N ..< length (nodes HT)]"
    using Nk by (simp add: filter_ge_upt k_def)
  show "\<forall>n \<in> set (internal_nodes HT). length (children HT n) = 2"
    using chl l by (auto simp: internal_nodes_def)
  have "\<forall>(p, c) \<in> set (edges HT). c < p"
    using edg by auto
  then show "acyclic (set (edges HT))"
    unfolding acyclic_def using edges_trancl_less [of _ _ "set (edges HT)"] by blast
  show "distinct (map snd (edges HT))" by (rule par)
qed

lemma forest_inv_single_root:
  assumes inv: "forest_inv N HT [r]"
  shows "r = int (length (nodes HT)) - 1" "last (nodes HT) = r"
    and "\<forall>n \<in> set (nodes HT). (r, n) \<in> (set (edges HT))\<^sup>*"
proof -
  define k where "k = length (nodes HT)"
  have nodes: "nodes HT = map int [0 ..< k]"
    and rts: "set [r] = set (nodes HT) - snd ` set (edges HT)"
    and edg: "\<forall>(p, c) \<in> set (edges HT). 0 \<le> c \<and> c < p \<and> p \<in> set (nodes HT)"
    and con: "\<forall>n \<in> set (nodes HT). \<exists>r' \<in> set [r]. (r', n) \<in> (set (edges HT))\<^sup>*"
    using inv unfolding forest_inv_def k_def by - (elim conjE, assumption)+
  show c: "\<forall>n \<in> set (nodes HT). (r, n) \<in> (set (edges HT))\<^sup>*"
    using con by simp
  have "r \<in> set (nodes HT)" using rts by auto
  then have rk: "0 \<le> r" "r < int k" by (auto simp: nodes)
  then have "int k - 1 \<in> set (nodes HT)"
    by (auto simp: nodes image_iff intro!: bexI [of _ "k - 1"])
  with c have "(r, int k - 1) \<in> (set (edges HT))\<^sup>*" by blast
  moreover have "\<forall>(p, c) \<in> set (edges HT). c < p" using edg by auto
  ultimately have "int k - 1 \<le> r" by (rule edges_rtrancl_le)
  with rk show r: "r = int (length (nodes HT)) - 1" by (simp add: k_def)
  have "k \<noteq> 0" using rk by auto
  then have "last (nodes HT) = int (k - 1)"
    by (simp add: nodes last_map)
  moreover have "int (k - 1) = int k - 1"
    using \<open>k \<noteq> 0\<close> by (simp add: of_nat_diff)
  ultimately show "last (nodes HT) = r" using r by (simp add: k_def)
qed

section \<open>The notebook's score function, and the smallest inputs\<close>

text \<open>
  Claim C2. With the score function of the notebook, whose body is \<^verbatim>\<open>pass\<close>, a call of
  \<^verbatim>\<open>generate_hierarchy_tree\<close> with two or more qubits raises \<^verbatim>\<open>TypeError\<close> at the
  first comparison \<^verbatim>\<open>f > f_max\<close>: it never returns a tree.
\<close>

theorem stub_score_raises_TypeError:
  "2 \<le> qubits \<Longrightarrow> generate_hierarchy_tree F qubits g = (Inl TypeError, g)"
proof -
  assume "2 \<le> qubits"
  then obtain xs where xs: "range_py qubits = 0 # 1 # xs"
    using range_py_ge2 by blast
  have "find_pair F (range_py qubits) g = (Inl TypeError, g)"
    by (simp add: find_pair_def xs index_pairs_Cons F_def)
  then have "loop_body F (initial_tree qubits) (range_py qubits) g = (Raised TypeError, g)"
    by (simp add: loop_body_def)
  then show ?thesis
    unfolding generate_hierarchy_tree_def Let_def nodes_initial_tree
    by (subst merge_loop.simps) (simp add: xs)
qed

theorem stub_score_raises_TypeError_witness:
  "(2::int) \<le> 5 \<and> generate_hierarchy_tree F 5 () = (Inl TypeError, ())"
  using stub_score_raises_TypeError [of 5 "()"] by simp

text \<open>
  Claim C3, as the code has it. The code has no check for an empty topology: with zero
  qubits the loop over \<^verbatim>\<open>range(qubits)\<close> adds no leaf, the \<^verbatim>\<open>while\<close> loop is not
  entered, and the call returns the empty graph, whatever the score function is.
\<close>

theorem zero_qubits_returns_empty_graph:
  "generate_hierarchy_tree sc 0 g = (Inr \<lparr>node_attr = [], edge_attr = []\<rparr>, g)"
  unfolding generate_hierarchy_tree_def Let_def initial_tree_0
  by (rule merge_loop_short) (simp add: nodes_def)

text \<open>The claim as the specification states it, an error on zero qubits, fails: the call
  returns a value.\<close>

theorem zero_qubits_no_error_counterexample:
  "fst (generate_hierarchy_tree F 0 ()) = Inr \<lparr>node_attr = [], edge_attr = []\<rparr>
   \<and> fst (generate_hierarchy_tree F 0 ()) \<noteq> Inl TypeError
   \<and> fst (generate_hierarchy_tree F 0 ()) \<noteq> Inl ValueError"
proof -
  have "merge_loop F \<lparr>node_attr = [], edge_attr = []\<rparr> [] () =
      (Inr \<lparr>node_attr = [], edge_attr = []\<rparr>, ())"
    by (rule merge_loop_short) simp
  then show ?thesis
    by (simp add: generate_hierarchy_tree_def initial_tree_0 nodes_def)
qed

text \<open>
  Claim C8. For one qubit the call returns the tree that has the single node \<open>0\<close>, a leaf
  and the root, and no edge: no merge is performed, no score is computed and nothing is
  raised, whatever the score function is.
\<close>

theorem single_qubit_tree:
  "generate_hierarchy_tree sc 1 g = (Inr \<lparr>node_attr = [(0, [])], edge_attr = []\<rparr>, g)
   \<and> nodes \<lparr>node_attr = [(0, [])], edge_attr = []\<rparr> = [0]
   \<and> roots \<lparr>node_attr = [(0, [])], edge_attr = []\<rparr> = [0]
   \<and> leaves \<lparr>node_attr = [(0, [])], edge_attr = []\<rparr> = [0]
   \<and> internal_nodes \<lparr>node_attr = [(0, [])], edge_attr = []\<rparr> = []
   \<and> edges \<lparr>node_attr = [(0, [])], edge_attr = []\<rparr> = []"
proof -
  have "generate_hierarchy_tree sc 1 g = (Inr \<lparr>node_attr = [(0, [])], edge_attr = []\<rparr>, g)"
    unfolding generate_hierarchy_tree_def Let_def initial_tree_1
    by (rule merge_loop_short) (simp add: nodes_def)
  then show ?thesis
    by (simp add: nodes_def roots_def leaves_def internal_nodes_def edges_def children_def)
qed

section \<open>The coupling graph\<close>

text \<open>
  Claim C10. \<^verbatim>\<open>generate_hierarchy_tree\<close> never changes its \<^verbatim>\<open>coupling_graph\<close> argument:
  the function only hands it to the score function. With the notebook's \<^verbatim>\<open>F\<close> the
  coupling graph after the call is the one passed in, for every input, and the same holds
  with every score function that itself leaves the coupling graph as it is.
\<close>

theorem coupling_graph_unchanged:
  "snd (generate_hierarchy_tree F qubits coupling_graph) = coupling_graph \<and>
   ((\<forall>A B g. snd (sc A B g) = g) \<longrightarrow>
      snd (generate_hierarchy_tree sc qubits coupling_graph) = coupling_graph)"
proof (intro conjI impI)
  show "snd (generate_hierarchy_tree F qubits coupling_graph) = coupling_graph"
    using F_frame by (rule generate_frame)
next
  assume "\<forall>A B g. snd (sc A B g) = g"
  then show "snd (generate_hierarchy_tree sc qubits coupling_graph) = coupling_graph"
    by (rule generate_frame)
qed

theorem coupling_graph_unchanged_witness:
  "(\<forall>A B g. snd (const_score 0 A B (g :: (int \<times> int) list)) = g) \<and>
   snd (generate_hierarchy_tree (const_score 0) 4 [(0 :: int, 1 :: int)]) = [(0, 1)]"
proof -
  have h: "\<forall>A B g. snd (const_score 0 A B (g :: (int \<times> int) list)) = g"
    by (rule const_score_frame)
  note t = coupling_graph_unchanged [where qubits = 4 and coupling_graph = "[(0 :: int, 1 :: int)]"
      and sc = "const_score 0", THEN conjunct2, THEN mp, OF h]
  show ?thesis using h t by (rule conjI)
qed

section \<open>What the returned tree records\<close>

text \<open>
  Claim C6, as the code has it. The builder records no score: \<^verbatim>\<open>add_node\<close> and
  \<^verbatim>\<open>add_edge\<close> are called without attributes, so in every returned tree every node
  and every edge has an empty attribute dictionary.
\<close>

theorem no_score_recorded:
  "fst (generate_hierarchy_tree sc qubits g) = Inr HT \<Longrightarrow>
   (\<forall>(n, a) \<in> set (node_attr HT). a = []) \<and> (\<forall>(e, a) \<in> set (edge_attr HT). a = [])"
proof -
  assume "fst (generate_hierarchy_tree sc qubits g) = Inr HT"
  then have "generate_hierarchy_tree sc qubits g =
      (Inr HT, snd (generate_hierarchy_tree sc qubits g))"
    by (metis prod.collapse)
  from generate_result_inv [OF this] obtain um where "forest_inv (nat qubits) HT um"
    by blast
  then have na: "node_attr HT = map (\<lambda>n. (n, [])) (nodes HT)"
    and ea: "edge_attr HT = map (\<lambda>e. (e, [])) (edges HT)"
    unfolding forest_inv_def by - (elim conjE, assumption)+
  have "\<forall>(n, a) \<in> set (map (\<lambda>n. (n, [])) (nodes HT)). a = ([] :: attrs)"
    by auto
  moreover have "\<forall>(e, a) \<in> set (map (\<lambda>e. (e, [])) (edges HT)). a = ([] :: attrs)"
    by auto
  ultimately show ?thesis
    by (simp only: na [symmetric] ea [symmetric])
qed

theorem no_score_recorded_witness:
  "\<exists>HT. fst (generate_hierarchy_tree (const_score 7) 2 ()) = Inr HT
     \<and> nodes HT = [0, 1, 2] \<and> edges HT = [(2, 0), (2, 1)]
     \<and> ((\<forall>(n, a) \<in> set (node_attr HT). a = []) \<and> (\<forall>(e, a) \<in> set (edge_attr HT). a = []))"
proof -
  let ?T = "\<lparr>node_attr = [(0, []), (1, []), (2, [])],
    edge_attr = [((2, 0), []), ((2, 1), [])]\<rparr>"
  have h: "fst (generate_hierarchy_tree (const_score 7) 2 ()) = Inr ?T"
    by (simp add: generate_const_2)
  have n: "nodes ?T = [0, 1, 2]" and e: "edges ?T = [(2, 0), (2, 1)]"
    by (simp_all add: nodes_def edges_def)
  note c = no_score_recorded [OF h]
  show ?thesis
    by (rule exI [of _ ?T], rule conjI [OF h], rule conjI [OF n], rule conjI [OF e], rule c)
qed

text \<open>The claim as the specification states it fails: two score functions with the
  winning scores 5 and 7 return the same tree, in which the internal node 2 carries no
  attribute, so the winning score cannot be read off the tree.\<close>

theorem score_not_stored_counterexample:
  "generate_hierarchy_tree (const_score 5) 2 () =
     (Inr \<lparr>node_attr = [(0, []), (1, []), (2, [])],
           edge_attr = [((2, 0), []), ((2, 1), [])]\<rparr>, ())
   \<and> generate_hierarchy_tree (const_score 7) 2 () =
     (Inr \<lparr>node_attr = [(0, []), (1, []), (2, [])],
           edge_attr = [((2, 0), []), ((2, 1), [])]\<rparr>, ())
   \<and> find_pair (const_score 5) [0, 1] () = (Inr (5, Some (0, 1)), ())
   \<and> find_pair (const_score 7) [0, 1] () = (Inr (7, Some (0, 1)), ())"
  by (simp add: generate_const_2 find_pair_const_above)

section \<open>The shape of the returned tree\<close>

text \<open>
  Claim C1, as the code has it. The running maximum starts at \<open>-1\<close> and a pair replaces
  it only with a strictly larger score, so the tree is complete only when scores exceed
  \<open>-1\<close>. For every qubit count \<open>N \<ge> 1\<close> and every real-valued score function that
  reads the coupling graph only and whose scores on pairs \<open>0 \<le> A < B\<close> are all above
  \<open>-1\<close>, the call returns a graph with the nodes \<open>0, \<dots>, 2N - 2\<close>: the \<open>N\<close> leaves
  \<open>0, \<dots>, N - 1\<close>, and \<open>N - 1\<close> internal nodes with two children each. No node has two
  parents, the graph is acyclic, its only root is the node created last, \<open>2N - 2\<close>, and
  every node is reachable from that root.
\<close>

theorem hierarchy_tree_shape:
  assumes q: "1 \<le> qubits"
    and pos: "\<forall>A B. 0 \<le> A \<and> A < B \<longrightarrow> - 1 < f A B g"
  shows "\<exists>HT. generate_hierarchy_tree (real_score f) qubits g = (Inr HT, g) \<and>
    nodes HT = range_py (2 * qubits - 1) \<and>
    leaves HT = range_py qubits \<and>
    internal_nodes HT = map int [nat qubits ..< nat (2 * qubits - 1)] \<and>
    int (length (leaves HT)) = qubits \<and>
    int (length (internal_nodes HT)) = qubits - 1 \<and>
    (\<forall>n \<in> set (internal_nodes HT). length (children HT n) = 2) \<and>
    distinct (map snd (edges HT)) \<and>
    acyclic (set (edges HT)) \<and>
    roots HT = [2 * qubits - 2] \<and>
    last (nodes HT) = 2 * qubits - 2 \<and>
    (\<forall>n \<in> set (nodes HT). (2 * qubits - 2, n) \<in> (set (edges HT))\<^sup>*)"
proof -
  define N where "N = nat qubits"
  have N: "0 < N" "int N = qubits" using q by (simp_all add: N_def)
  have "forest_inv N (initial_tree qubits) (nodes (initial_tree qubits))"
    unfolding N_def by (rule forest_inv_init)
  from merge_loop_real_total [where f = f and g = g, OF pos this] obtain HT um where
    run: "merge_loop (real_score f) (initial_tree qubits) (nodes (initial_tree qubits)) g =
      (Inr HT, g)"
    and inv: "forest_inv N HT um" and len: "length um \<le> 1"
    by blast
  have gen: "generate_hierarchy_tree (real_score f) qubits g = (Inr HT, g)"
    using run by (simp add: generate_hierarchy_tree_def Let_def)
  have "um \<noteq> []"
    using inv N(1) unfolding forest_inv_def by blast
  with len obtain r where um: "um = [r]"
    by (cases um) auto
  have k: "length (nodes HT) = 2 * N - 1"
    using forest_inv_count [OF inv] by (simp add: um)
  have k': "nat (2 * qubits - 1) = 2 * N - 1"
    using q by (simp add: N_def nat_diff_distrib nat_mult_distrib)
  have n: "nodes HT = range_py (2 * qubits - 1)"
    using forest_inv_nodes [OF inv] by (simp add: range_py_def k k')
  note sh = forest_inv_shape [OF inv]
  have lv: "leaves HT = range_py qubits"
    using sh(1) by (simp add: range_py_def N_def)
  have it: "internal_nodes HT = map int [nat qubits ..< nat (2 * qubits - 1)]"
    using sh(2) by (simp add: k k' N_def)
  have ll: "int (length (leaves HT)) = qubits"
    using q by (simp add: lv range_py_def)
  have li: "int (length (internal_nodes HT)) = qubits - 1"
    using N by (simp add: it k' N_def [symmetric])
  note sr = forest_inv_single_root [OF inv [unfolded um]]
  have r: "r = 2 * qubits - 2"
    using sr(1) N by (simp add: k)
  have rt: "roots HT = [2 * qubits - 2]"
    using forest_inv_roots [OF inv] by (simp add: um r)
  have la: "last (nodes HT) = 2 * qubits - 2"
    using sr(2) by (simp add: r)
  have cn: "\<forall>n \<in> set (nodes HT). (2 * qubits - 2, n) \<in> (set (edges HT))\<^sup>*"
    using sr(3) by (simp add: r)
  show ?thesis
    by (intro exI [of _ HT] conjI gen n lv it ll li sh(3) sh(5) sh(4) rt la cn)
qed

theorem hierarchy_tree_shape_witness:
  "(1 :: int) \<le> 3 \<and>
   (\<exists>HT. generate_hierarchy_tree (real_score (\<lambda>A B g. real_of_int (A + B))) 3 () = (Inr HT, ()) \<and>
    nodes HT = range_py (2 * 3 - 1) \<and>
    leaves HT = range_py 3 \<and>
    internal_nodes HT = map int [nat 3 ..< nat (2 * 3 - 1)] \<and>
    int (length (leaves HT)) = 3 \<and>
    int (length (internal_nodes HT)) = 3 - 1 \<and>
    (\<forall>n \<in> set (internal_nodes HT). length (children HT n) = 2) \<and>
    distinct (map snd (edges HT)) \<and>
    acyclic (set (edges HT)) \<and>
    roots HT = [2 * 3 - 2] \<and>
    last (nodes HT) = 2 * 3 - 2 \<and>
    (\<forall>n \<in> set (nodes HT). (2 * 3 - 2, n) \<in> (set (edges HT))\<^sup>*))"
proof -
  have q: "(1 :: int) \<le> 3" by simp
  have pos: "\<forall>A B. 0 \<le> A \<and> A < B \<longrightarrow>
      - 1 < (\<lambda>A B (g :: unit). real_of_int (A + B)) A B ()"
    by auto
  note t = hierarchy_tree_shape [where f = "\<lambda>A B g. real_of_int (A + B)" and g = "()", OF q pos]
  show ?thesis using q t by (rule conjI)
qed

text \<open>The claim for every real-valued score function fails: with the constant score
  \<open>-1\<close> and two qubits no pair is merged, and the two leaves are returned as two roots,
  with no internal node.\<close>

theorem hierarchy_tree_shape_counterexample:
  "generate_hierarchy_tree (const_score (- 1)) 2 () =
     (Inr \<lparr>node_attr = [(0, []), (1, [])], edge_attr = []\<rparr>, ())
   \<and> internal_nodes \<lparr>node_attr = [(0, []), (1, [])], edge_attr = []\<rparr> = []
   \<and> roots \<lparr>node_attr = [(0, []), (1, [])], edge_attr = []\<rparr> = [0, 1]"
proof -
  have b: "loop_body (const_score (- 1)) \<lparr>node_attr = [(0, []), (1, [])], edge_attr = []\<rparr>
      [0, 1] () = (Broke, ())"
    by (simp add: loop_body_def find_pair_const_below)
  have "merge_loop (const_score (- 1)) \<lparr>node_attr = [(0, []), (1, [])], edge_attr = []\<rparr>
      [0, 1] () = (Inr \<lparr>node_attr = [(0, []), (1, [])], edge_attr = []\<rparr>, ())"
    by (rule merge_loop_Broke [OF _ b]) simp
  then have "generate_hierarchy_tree (const_score (- 1)) 2 () =
     (Inr \<lparr>node_attr = [(0, []), (1, [])], edge_attr = []\<rparr>, ())"
    by (simp add: generate_hierarchy_tree_def Let_def initial_tree_2 nodes_def)
  then show ?thesis
    by (simp add: internal_nodes_def roots_def children_def nodes_def edges_def)
qed

text \<open>
  Claim C7, as the code has it. For four qubits and a score function that returns the
  same value \<open>m\<close> for every pair, the call returns; when \<open>m\<close> is above \<open>-1\<close> the result
  is one tree with the leaves \<open>0, 1, 2, 3\<close> and the internal nodes \<open>4, 5, 6\<close>, and each
  of the three merges is made with the score \<open>m\<close>.
\<close>

theorem disconnected_four_qubits:
  "- 1 < m \<Longrightarrow>
   \<exists>HT. generate_hierarchy_tree (const_score m) 4 g = (Inr HT, g) \<and>
     nodes HT = [0, 1, 2, 3, 4, 5, 6] \<and>
     edges HT = [(4, 0), (4, 1), (5, 2), (5, 3), (6, 4), (6, 5)] \<and>
     leaves HT = [0, 1, 2, 3] \<and>
     internal_nodes HT = [4, 5, 6] \<and>
     roots HT = [6] \<and>
     find_pair (const_score m) [0, 1, 2, 3] g = (Inr (m, Some (0, 1)), g) \<and>
     find_pair (const_score m) [2, 3, 4] g = (Inr (m, Some (2, 3)), g) \<and>
     find_pair (const_score m) [4, 5] g = (Inr (m, Some (4, 5)), g)"
proof -
  assume m: "- 1 < m"
  let ?T0 = "\<lparr>node_attr = [(0, []), (1, []), (2, []), (3, [])], edge_attr = []\<rparr>"
  let ?T1 = "\<lparr>node_attr = [(0, []), (1, []), (2, []), (3, []), (4, [])],
    edge_attr = [((4, 0), []), ((4, 1), [])]\<rparr>"
  let ?T2 = "\<lparr>node_attr = [(0, []), (1, []), (2, []), (3, []), (4, []), (5, [])],
    edge_attr = [((4, 0), []), ((4, 1), []), ((5, 2), []), ((5, 3), [])]\<rparr>"
  let ?T3 = "\<lparr>node_attr = [(0, []), (1, []), (2, []), (3, []), (4, []), (5, []), (6, [])],
    edge_attr = [((4, 0), []), ((4, 1), []), ((5, 2), []), ((5, 3), []),
      ((6, 4), []), ((6, 5), [])]\<rparr>"
  have "merge_loop (const_score m) ?T0 [0, 1, 2, 3] g = merge_loop (const_score m) ?T1 [2, 3, 4] g"
    by (rule merge_loop_Next [OF _ loop_body_4_first [OF m]]) simp
  also have "\<dots> = merge_loop (const_score m) ?T2 [4, 5] g"
    by (rule merge_loop_Next [OF _ loop_body_4_second [OF m]]) simp
  also have "\<dots> = merge_loop (const_score m) ?T3 [6] g"
    by (rule merge_loop_Next [OF _ loop_body_4_third [OF m]]) simp
  also have "\<dots> = (Inr ?T3, g)"
    by (rule merge_loop_short) simp
  finally have gen: "generate_hierarchy_tree (const_score m) 4 g = (Inr ?T3, g)"
    by (simp add: generate_hierarchy_tree_def Let_def initial_tree_4 nodes_def)
  have n: "nodes ?T3 = [0, 1, 2, 3, 4, 5, 6]"
    by (simp add: nodes_def)
  have e: "edges ?T3 = [(4, 0), (4, 1), (5, 2), (5, 3), (6, 4), (6, 5)]"
    by (simp add: edges_def)
  have l: "leaves ?T3 = [0, 1, 2, 3]"
    by (simp add: leaves_def children_def n e)
  have i: "internal_nodes ?T3 = [4, 5, 6]"
    by (simp add: internal_nodes_def children_def n e)
  have r: "roots ?T3 = [6]"
    by (simp add: roots_def n e)
  note f = find_pair_const_above [OF m]
  show ?thesis
    by (intro exI [of _ ?T3] conjI gen n e l i r f)
qed

theorem disconnected_four_qubits_witness:
  "(- 1 :: real) < 0 \<and>
   (\<exists>HT. generate_hierarchy_tree (const_score 0) 4 () = (Inr HT, ()) \<and>
     nodes HT = [0, 1, 2, 3, 4, 5, 6] \<and>
     edges HT = [(4, 0), (4, 1), (5, 2), (5, 3), (6, 4), (6, 5)] \<and>
     leaves HT = [0, 1, 2, 3] \<and>
     internal_nodes HT = [4, 5, 6] \<and>
     roots HT = [6] \<and>
     find_pair (const_score 0) [0, 1, 2, 3] () = (Inr (0, Some (0, 1)), ()) \<and>
     find_pair (const_score 0) [2, 3, 4] () = (Inr (0, Some (2, 3)), ()) \<and>
     find_pair (const_score 0) [4, 5] () = (Inr (0, Some (4, 5)), ()))"
proof -
  have h: "(- 1 :: real) < 0" by simp
  show ?thesis
    using h disconnected_four_qubits [OF h, of "()"] by (rule conjI)
qed

text \<open>With the value \<open>-1\<close> for every pair the claim fails: the four leaves are returned
  unmerged.\<close>

theorem disconnected_four_qubits_counterexample:
  "generate_hierarchy_tree (const_score (- 1)) 4 () =
     (Inr \<lparr>node_attr = [(0, []), (1, []), (2, []), (3, [])], edge_attr = []\<rparr>, ())
   \<and> internal_nodes \<lparr>node_attr = [(0, []), (1, []), (2, []), (3, [])], edge_attr = []\<rparr> = []
   \<and> roots \<lparr>node_attr = [(0, []), (1, []), (2, []), (3, [])], edge_attr = []\<rparr> = [0, 1, 2, 3]"
proof -
  let ?T0 = "\<lparr>node_attr = [(0, []), (1, []), (2, []), (3, [])], edge_attr = []\<rparr>"
  have b: "loop_body (const_score (- 1)) ?T0 [0, 1, 2, 3] () = (Broke, ())"
    by (simp add: loop_body_def find_pair_const_below)
  have "merge_loop (const_score (- 1)) ?T0 [0, 1, 2, 3] () = (Inr ?T0, ())"
    by (rule merge_loop_Broke [OF _ b]) simp
  then have "generate_hierarchy_tree (const_score (- 1)) 4 () = (Inr ?T0, ())"
    by (simp add: generate_hierarchy_tree_def Let_def initial_tree_4 nodes_def)
  then show ?thesis
    by (simp add: internal_nodes_def roots_def children_def nodes_def edges_def)
qed

section \<open>The choice of the pair to merge\<close>

text \<open>
  Claim C4. At every iteration that a run of the builder passes through, with a
  real-valued score function: when a pair \<open>(A', B')\<close> of unmerged items has the maximal
  score among all pairs of unmerged items, and that score is above \<open>-1\<close>, then the pair
  \<open>(A, B)\<close> that is merged has that same score and is lexicographically at most
  \<open>(A', B')\<close>. So among the pairs that tie for the maximum the merged one has the
  lexicographically smallest identifiers.
\<close>

theorem tie_break_lexicographic:
  assumes "loop_reaches (real_score f) (loop_start qubits g) (HT, um, g')"
    and "A' \<in> set um" "B' \<in> set um" "A' < B'"
    and "\<forall>X \<in> set um. \<forall>Y \<in> set um. X < Y \<longrightarrow> f X Y g' \<le> f A' B' g'"
    and "- 1 < f A' B' g'"
  shows "\<exists>A B HT' um'.
    find_pair (real_score f) um g' = (Inr (f A' B' g', Some (A, B)), g') \<and>
    f A B g' = f A' B' g' \<and> A \<in> set um \<and> B \<in> set um \<and> A < B \<and>
    (A < A' \<or> (A = A' \<and> B \<le> B')) \<and>
    loop_body (real_score f) HT um g' = (Next HT' um', g') \<and>
    edges HT' = edges HT @ [(int (length (nodes HT)), A), (int (length (nodes HT)), B)]"
proof -
  have inv: "forest_inv (nat qubits) HT um"
    using assms(1) by (rule forest_inv_start)
  from find_pair_real_max [where f = f and g = g', OF forest_inv_sorted [OF inv] assms(2-6)]
  obtain A B where
    f: "find_pair (real_score f) um g' = (Inr (f A' B' g', Some (A, B)), g')"
    and r: "f A B g' = f A' B' g'" "A \<in> set um" "B \<in> set um" "A < B"
      "A < A' \<or> (A = A' \<and> B \<le> B')"
    by blast
  from loop_body_real_Next [OF inv f] obtain HT' um' where
    "loop_body (real_score f) HT um g' = (Next HT' um', g')"
    "edges HT' = edges HT @ [(int (length (nodes HT)), A), (int (length (nodes HT)), B)]"
    by blast
  with f r show ?thesis by blast
qed

theorem tie_break_lexicographic_witness:
  "loop_reaches (const_score 0) (loop_start 4 ())
     (\<lparr>node_attr = [(0, []), (1, []), (2, []), (3, []), (4, [])],
          edge_attr = [((4, 0), []), ((4, 1), [])]\<rparr>, [2, 3, 4], ()) \<and>
   (\<exists>A B HT' um'.
      find_pair (const_score 0) [2, 3, 4] () = (Inr (0, Some (A, B)), ()) \<and>
      (0 :: real) = 0 \<and> A \<in> set [2, 3, 4] \<and> B \<in> set [2, 3, 4] \<and> A < B \<and>
      (A < 3 \<or> (A = 3 \<and> B \<le> 4)) \<and>
      loop_body (const_score 0) \<lparr>node_attr = [(0, []), (1, []), (2, []), (3, []), (4, [])],
          edge_attr = [((4, 0), []), ((4, 1), [])]\<rparr> [2, 3, 4] () = (Next HT' um', ()) \<and>
      edges HT' = edges \<lparr>node_attr = [(0, []), (1, []), (2, []), (3, []), (4, [])],
          edge_attr = [((4, 0), []), ((4, 1), [])]\<rparr> @
        [(int (length (nodes \<lparr>node_attr = [(0, []), (1, []), (2, []), (3, []), (4, [])],
          edge_attr = [((4, 0), []), ((4, 1), [])]\<rparr>)), A),
         (int (length (nodes \<lparr>node_attr = [(0, []), (1, []), (2, []), (3, []), (4, [])],
          edge_attr = [((4, 0), []), ((4, 1), [])]\<rparr>)), B)])"
proof -
  have r: "loop_reaches (real_score (\<lambda>A B g. 0)) (loop_start 4 ())
     (\<lparr>node_attr = [(0, []), (1, []), (2, []), (3, []), (4, [])],
          edge_attr = [((4, 0), []), ((4, 1), [])]\<rparr>, [2, 3, 4], ())"
    using reaches_4_second [of 0 "()"] by (simp add: const_score_def)
  note t = tie_break_lexicographic [where f = "\<lambda>A B g. 0" and A' = 3 and B' = 4, OF r]
  have "\<exists>A B HT' um'.
      find_pair (real_score (\<lambda>A B g. 0)) [2, 3, 4] () = (Inr (0, Some (A, B)), ()) \<and>
      (0 :: real) = 0 \<and> A \<in> set [2, 3, 4] \<and> B \<in> set [2, 3, 4] \<and> A < B \<and>
      (A < 3 \<or> (A = 3 \<and> B \<le> 4)) \<and>
      loop_body (real_score (\<lambda>A B g. 0)) \<lparr>node_attr = [(0, []), (1, []), (2, []), (3, []), (4, [])],
          edge_attr = [((4, 0), []), ((4, 1), [])]\<rparr> [2, 3, 4] () = (Next HT' um', ()) \<and>
      edges HT' = edges \<lparr>node_attr = [(0, []), (1, []), (2, []), (3, []), (4, [])],
          edge_attr = [((4, 0), []), ((4, 1), [])]\<rparr> @
        [(int (length (nodes \<lparr>node_attr = [(0, []), (1, []), (2, []), (3, []), (4, [])],
          edge_attr = [((4, 0), []), ((4, 1), [])]\<rparr>)), A),
         (int (length (nodes \<lparr>node_attr = [(0, []), (1, []), (2, []), (3, []), (4, [])],
          edge_attr = [((4, 0), []), ((4, 1), [])]\<rparr>)), B)]"
    by (rule t) simp_all
  with r show ?thesis
    unfolding const_score_def by (rule conjI)
qed

text \<open>
  Claim C9. With a real-valued score function, at an iteration in which every pair of
  unmerged items has a score of at most \<open>-1\<close>: \<^verbatim>\<open>pair_to_merge\<close> stays \<^verbatim>\<open>None\<close>, the
  loop is left through \<^verbatim>\<open>break\<close>, and the call returns the forest built so far, whose
  roots are the unmerged items, more than one, so that no node reaches all the others.
  A pair is merged only with a score strictly above \<open>-1\<close>.
\<close>

theorem no_merge_at_or_below_minus_one:
  assumes reach: "loop_reaches (real_score f) (loop_start qubits g) (HT, um, g')"
    and len: "1 < length um"
    and low: "\<forall>(A, B) \<in> set (index_pairs um). f A B g' \<le> - 1"
  shows "find_pair (real_score f) um g' = (Inr (- 1, None), g') \<and>
    loop_body (real_score f) HT um g' = (Broke, g') \<and>
    generate_hierarchy_tree (real_score f) qubits g = (Inr HT, g) \<and>
    roots HT = um \<and> 1 < length (roots HT) \<and>
    (\<forall>r. \<exists>n \<in> set (nodes HT). (r, n) \<notin> (set (edges HT))\<^sup>*) \<and>
    (\<forall>um2 g2 fm A B g3.
       find_pair (real_score f) um2 g2 = (Inr (fm, Some (A, B)), g3) \<longrightarrow>
       fm = f A B g2 \<and> - 1 < fm)"
proof -
  have inv: "forest_inv (nat qubits) HT um"
    using reach by (rule forest_inv_start)
  have g': "g' = g"
    using reach by (rule loop_reaches_real_graph) (simp_all add: loop_start_def)
  have fp: "find_pair (real_score f) um g' = (Inr (- 1, None), g')"
    unfolding find_pair_def using low by (rule scan_pairs_real_stay)
  then have lb: "loop_body (real_score f) HT um g' = (Broke, g')"
    by (simp add: loop_body_def)
  have "generate_hierarchy_tree (real_score f) qubits g = merge_loop (real_score f) HT um g'"
    unfolding generate_hierarchy_tree_def Let_def
    using reach by (rule loop_reaches_merge_loop) (simp_all add: loop_start_def)
  also have "\<dots> = (Inr HT, g')"
    using len lb by (rule merge_loop_Broke)
  finally have gen: "generate_hierarchy_tree (real_score f) qubits g = (Inr HT, g)"
    by (simp add: g')
  have rts: "roots HT = um"
    using inv by (rule forest_inv_roots)
  have srt: "sorted_wrt (<) um"
    using inv by (rule forest_inv_sorted)
  have sub: "set um = set (nodes HT) - snd ` set (edges HT)"
    using inv unfolding forest_inv_def by (elim conjE)
  from two_elements [OF len sorted_wrt_less_distinct [OF srt]] obtain a b where
    ab: "a \<in> set um" "b \<in> set um" "a \<noteq> b"
    by blast
  have split: "\<forall>r. \<exists>n \<in> set (nodes HT). (r, n) \<notin> (set (edges HT))\<^sup>*"
  proof
    fix r
    show "\<exists>n \<in> set (nodes HT). (r, n) \<notin> (set (edges HT))\<^sup>*"
    proof (rule ccontr)
      assume "\<not> (\<exists>n \<in> set (nodes HT). (r, n) \<notin> (set (edges HT))\<^sup>*)"
      then have all: "\<forall>n \<in> set (nodes HT). (r, n) \<in> (set (edges HT))\<^sup>*"
        by blast
      have "r = a" using all ab(1) sub by (intro no_parent_rtrancl [of r a "set (edges HT)"]) auto
      moreover have "r = b"
        using all ab(2) sub by (intro no_parent_rtrancl [of r b "set (edges HT)"]) auto
      ultimately show False using ab(3) by simp
    qed
  qed
  have only: "\<forall>um2 g2 fm A B g3.
       find_pair (real_score f) um2 g2 = (Inr (fm, Some (A, B)), g3) \<longrightarrow>
       fm = f A B g2 \<and> - 1 < fm"
    using find_pair_real_Some [of f] by blast
  show ?thesis
    using fp lb gen rts len split only by simp
qed

theorem no_merge_at_or_below_minus_one_witness:
  "loop_reaches (real_score (\<lambda>A B g. if A = 0 \<and> B = 1 then 0 else - 1)) (loop_start 3 ())
     (\<lparr>node_attr = [(0, []), (1, []), (2, []), (3, [])],
          edge_attr = [((3, 0), []), ((3, 1), [])]\<rparr>, [2, 3], ()) \<and>
   index_pairs [2, 3 :: int] = [(2, 3)] \<and>
   generate_hierarchy_tree (real_score (\<lambda>A B g. if A = 0 \<and> B = 1 then 0 else - 1)) 3 () =
     (Inr \<lparr>node_attr = [(0, []), (1, []), (2, []), (3, [])],
          edge_attr = [((3, 0), []), ((3, 1), [])]\<rparr>, ()) \<and>
   roots \<lparr>node_attr = [(0, []), (1, []), (2, []), (3, [])],
          edge_attr = [((3, 0), []), ((3, 1), [])]\<rparr> = [2, 3]"
proof -
  note r = reaches_3_second [of "()"]
  have p: "index_pairs [2, 3 :: int] = [(2, 3)]"
    by (simp add: index_pairs_Cons index_pairs_Nil)
  have l: "1 < length [2, 3 :: int]" by simp
  have h: "\<forall>(A, B) \<in> set (index_pairs [2, 3 :: int]).
      (\<lambda>A B (g :: unit). if A = 0 \<and> B = 1 then 0 else - 1 :: real) A B () \<le> - 1"
    by (simp add: p)
  note t = no_merge_at_or_below_minus_one [OF r l h]
  show ?thesis
    using r p t [THEN conjunct2, THEN conjunct2, THEN conjunct1]
      t [THEN conjunct2, THEN conjunct2, THEN conjunct2, THEN conjunct1]
    by (intro conjI)
qed

end
